theory Spec2Isabelle
  imports Complex_Main "HOL-Library.AList"
begin

section \<open>chainHOP: the parallel chain-linkage halo finder (yt/lagos/chainHOP/chainHOP.py)\<close>

text \<open>
  A shallow embedding of the methods of class \<open>RunChainHOP\<close>. Python names keep their
  spelling without the leading underscore (\<open>_recurse_links\<close> is \<open>recurse_links\<close>).
  Densities are Python floats that the code only compares and copies; they are modelled as
  reals (no NaN). Exceptions are values of type \<open>error\<close>; a result is \<open>error + 'a\<close>.
  RuntimeError is what CPython 2 raises when the nesting of calls passes the recursion
  limit.
\<close>

subsection \<open>Exceptions and numpy indexing\<close>

datatype error =
  KeyError | IndexError | NameError | TypeError | SystemExit | RuntimeError | OverflowError |
  ValueError

text \<open>
  Indexing a one-dimensional numpy array (or a Python list) with an integer: a negative
  index counts from the end, anything outside \<open>-n .. n-1\<close> raises IndexError.
\<close>

definition np_index :: "'a list \<Rightarrow> int \<Rightarrow> nat option" where
  "np_index xs i =
     (if 0 \<le> i \<and> i < int (length xs) then Some (nat i)
      else if i < 0 \<and> - int (length xs) \<le> i then Some (nat (int (length xs) + i))
      else None)"

definition np_get :: "'a list \<Rightarrow> int \<Rightarrow> error + 'a" where
  "np_get xs i = (case np_index xs i of None \<Rightarrow> Inl IndexError | Some j \<Rightarrow> Inr (xs ! j))"

definition np_set :: "'a list \<Rightarrow> int \<Rightarrow> 'a \<Rightarrow> error + 'a list" where
  "np_set xs i v = (case np_index xs i of None \<Rightarrow> Inl IndexError | Some j \<Rightarrow> Inr (xs[j := v]))"

text \<open>\<open>a.all()\<close> of an integer array: every element is non-zero.\<close>

definition np_all :: "int list \<Rightarrow> bool" where
  "np_all v = list_all (\<lambda>x. x \<noteq> 0) v"

subsection \<open>The 27-way shift encoding (\<open>_translate_shift\<close>)\<close>

text \<open>
  The dictionary \<open>d\<close> of \<open>_translate_shift\<close>, as an association list in the order in
  which \<open>for key in d\<close> yields its keys (the small non-negative integers 0..26 hash to
  themselves, so CPython 2 iterates them in ascending order).
\<close>

definition shift_table :: "(int \<times> int list) list" where
  "shift_table =
    [(0, [-1,-1,-1]), (1, [-1,-1,0]), (2, [-1,-1,1]), (3, [-1,0,-1]), (4, [-1,0,0]),
     (5, [-1,0,1]), (6, [-1,1,-1]), (7, [-1,1,0]), (8, [-1,1,1]), (9, [0,-1,-1]),
     (10, [0,-1,0]), (11, [0,-1,1]), (12, [0,0,-1]), (13, [0,0,0]), (14, [0,0,1]),
     (15, [0,1,-1]), (16, [0,1,0]), (17, [0,1,1]), (18, [1,-1,-1]), (19, [1,-1,0]),
     (20, [1,-1,1]), (21, [1,0,-1]), (22, [1,0,0]), (23, [1,0,1]), (24, [1,1,-1]),
     (25, [1,1,0]), (26, [1,1,1])]"

text \<open>What \<open>_translate_shift\<close> returns: \<open>None\<close>, a shift vector, or a key.\<close>

datatype shift_result = RNone | RShift "int list" | RKey int

text \<open>
  The loop \<open>for key in d: if d[key].all() == shift.all(): return key\<close>: the first key
  whose vector has the same \<open>all()\<close> truth value as the argument; falling off the end of
  the loop returns \<open>None\<close>.
\<close>

fun find_key :: "(int \<times> int list) list \<Rightarrow> int list \<Rightarrow> shift_result" where
  "find_key [] shift = RNone"
| "find_key ((key, v) # d) shift = (if np_all v = np_all shift then RKey key else find_key d shift)"

definition translate_shift_in ::
  "(int \<times> int list) list \<Rightarrow> int option \<Rightarrow> int list option \<Rightarrow> error + shift_result" where
  "translate_shift_in d i shift =
     (if i = None \<and> shift = None then Inr RNone
      else case i of
        Some k \<Rightarrow> (case map_of d k of None \<Rightarrow> Inl KeyError | Some v \<Rightarrow> Inr (RShift v))
      | None \<Rightarrow> (case shift of Some v \<Rightarrow> Inr (find_key d v) | None \<Rightarrow> Inr RNone))"

definition translate_shift :: "int option \<Rightarrow> int list option \<Rightarrow> error + shift_result" where
  "translate_shift i shift = translate_shift_in shift_table i shift"

subsection \<open>The object state\<close>

text \<open>
  The fields of a \<open>RunChainHOP\<close> object that the modelled methods read or write.
  \<open>size_n\<close> is \<open>self.size\<close>. The dictionaries are association lists: \<open>map_of\<close>
  looks a key up, \<open>AList.update\<close> assigns to a key. The arrays \<open>density\<close>,
  \<open>densestNN\<close> come from the external kd-tree (Fortran) and are taken as given.
  \<open>visited\<close> is a ghost field: the particles on which \<open>_recurse_links\<close> has been
  entered, in order; no branch of the code reads it. The field \<open>chainID\<close> of
  \<open>PaddedPart\<close> is written \<open>pp_chainID\<close>, since field names are global.
\<close>

record PaddedPart =
  local_index :: int
  particle_index :: int
  pp_chainID :: int
  shift :: "int list"

record RunChainHOP =
  threshold :: real
  saddlethresh :: real
  peakthresh :: real
  bounds :: "(real \<times> real \<times> real) \<times> (real \<times> real \<times> real)"
  xpos :: "real list"
  ypos :: "real list"
  zpos :: "real list"
  index :: "int list"
  padded_particles :: "int list"
  size_n :: nat
  chainID :: "int list"
  is_inside :: "bool list"
  density :: "real list"
  densestNN :: "int list"
  densest_in_chain :: "(int \<times> real) list"
  uphill_info :: "(int \<times> PaddedPart list) list"
  uphill_info_count :: "(int \<times> int) list"
  uphill_recv_count :: "(int \<times> int) list"
  uphill_recv :: "(int \<times> int) list"
  chain_densest_n :: "(int \<times> (int \<times> real) list) list"
  reverse_map :: "(int \<times> int) list"
  densest_in_group :: "(int \<times> real) list"
  visited :: "int list"

subsection \<open>Chain Builder (\<open>_recurse_links\<close>, \<open>_build_chains\<close>)\<close>

text \<open>
  \<open>_recurse_links(pi, chainIDmax)\<close> (the parameter \<open>pi\<close> is written \<open>p_i\<close>). The
  method calls itself once for every link it follows, and CPython bounds the nesting of
  calls (\<open>sys.getrecursionlimit()\<close>, 1000 unless it is changed, and the code does not
  change it): the call that would pass the bound raises RuntimeError. The first argument
  \<open>depth\<close> is the number of nested calls of \<open>_recurse_links\<close> that the interpreter
  still allows where the call is made, that is the recursion limit less the frames already
  on the stack. The result is \<open>Inl e\<close> when the call raises \<open>e\<close>, and \<open>Inr (s', id)\<close> when
  it returns \<open>id\<close> leaving the object in state \<open>s'\<close>.
\<close>

fun recurse_links ::
  "nat \<Rightarrow> RunChainHOP \<Rightarrow> int \<Rightarrow> int \<Rightarrow> error + RunChainHOP \<times> int" where
  "recurse_links 0 s0 p_i chainIDmax = Inl RuntimeError"
| "recurse_links (Suc depth) s0 p_i chainIDmax =
     (let s = s0\<lparr>visited := visited s0 @ [p_i]\<rparr> in
      case np_get (densestNN s) p_i of Inl e \<Rightarrow> Inl e | Inr nn \<Rightarrow>
      case np_get (is_inside s) p_i of Inl e \<Rightarrow> Inl e | Inr inside \<Rightarrow>
      case np_get (chainID s) nn of Inl e \<Rightarrow> Inl e | Inr nn_chainID \<Rightarrow>
      if nn_chainID > -1 \<and> inside then
        (case np_set (chainID s) p_i nn_chainID of Inl e \<Rightarrow> Inl e
         | Inr c \<Rightarrow> Inr (s\<lparr>chainID := c\<rparr>, nn_chainID))
      else if nn = p_i \<or> \<not> inside then
        (case np_set (chainID s) p_i chainIDmax of Inl e \<Rightarrow> Inl e | Inr c \<Rightarrow>
         case np_get (density s) p_i of Inl e \<Rightarrow> Inl e | Inr d \<Rightarrow>
           let s1 = s\<lparr>chainID := c,
                      densest_in_chain := AList.update chainIDmax d (densest_in_chain s)\<rparr>;
               s2 = (if \<not> inside
                     then s1\<lparr>padded_particles := padded_particles s1 @ [p_i]\<rparr> else s1)
           in Inr (s2, chainIDmax))
      else
        (case recurse_links depth s nn chainIDmax of Inl e \<Rightarrow> Inl e
         | Inr (s', chainIDnew) \<Rightarrow>
            (case np_set (chainID s') p_i chainIDnew of Inl e \<Rightarrow> Inl e
             | Inr c \<Rightarrow> Inr (s'\<lparr>chainID := c\<rparr>, chainIDnew))))"

text \<open>
  The loop of \<open>_build_chains\<close> over \<open>xrange(self.size)\<close>; the three tests of the
  \<open>continue\<close> condition are evaluated left to right, as Python's \<open>or\<close> does. Every call
  of \<open>_recurse_links\<close> made by the loop starts at the same depth of the stack.
\<close>

fun build_chains_loop ::
  "nat \<Rightarrow> nat list \<Rightarrow> RunChainHOP \<Rightarrow> int \<Rightarrow> error + RunChainHOP \<times> int" where
  "build_chains_loop depth [] s chainIDmax = Inr (s, chainIDmax)"
| "build_chains_loop depth (i # rest) s chainIDmax =
     (case np_get (chainID s) (int i) of Inl e \<Rightarrow> Inl e | Inr c \<Rightarrow>
      if c > -1 then build_chains_loop depth rest s chainIDmax else
      case np_get (is_inside s) (int i) of Inl e \<Rightarrow> Inl e | Inr inside \<Rightarrow>
      if \<not> inside then build_chains_loop depth rest s chainIDmax else
      case np_get (density s) (int i) of Inl e \<Rightarrow> Inl e | Inr d \<Rightarrow>
      if d < threshold s then build_chains_loop depth rest s chainIDmax else
      (case recurse_links depth s (int i) chainIDmax of Inl e \<Rightarrow> Inl e
       | Inr (s', chainIDnew) \<Rightarrow>
           build_chains_loop depth rest s'
             (if chainIDnew = chainIDmax then chainIDmax + 1 else chainIDmax)))"

definition build_chains :: "nat \<Rightarrow> RunChainHOP \<Rightarrow> error + RunChainHOP \<times> int" where
  "build_chains depth s =
     build_chains_loop depth [0..<size_n s] (s\<lparr>densest_in_chain := []\<rparr>) 0"

subsection \<open>Marking the owned region (\<open>_is_inside\<close>, \<open>_find_shift\<close>)\<close>

text \<open>
  The position table of the kd-tree, filled by \<open>_init_kd_tree\<close>: three rows of
  \<open>self.size\<close> columns, assigned from \<open>xpos\<close>, \<open>ypos\<close>, \<open>zpos\<close>. Assigning an array to a
  row copies it when the lengths agree, repeats its element when it has exactly one, and
  raises ValueError otherwise.
\<close>

definition pos_row :: "nat \<Rightarrow> real list \<Rightarrow> error + real list" where
  "pos_row n v =
     (if length v = n then Inr v
      else if length v = 1 then Inr (replicate n (hd v))
      else Inl ValueError)"

definition init_kd_tree :: "RunChainHOP \<Rightarrow> error + real list \<times> real list \<times> real list" where
  "init_kd_tree s =
     (case pos_row (size_n s) (xpos s) of Inl e \<Rightarrow> Inl e | Inr xs \<Rightarrow>
      case pos_row (size_n s) (ypos s) of Inl e \<Rightarrow> Inl e | Inr ys \<Rightarrow>
      case pos_row (size_n s) (zpos s) of Inl e \<Rightarrow> Inl e | Inr zs \<Rightarrow> Inr (xs, ys, zs))"

text \<open>
  \<open>_is_inside\<close>, on the position table: a particle is inside when each coordinate is at
  least the left edge and below the right edge. The three rows have the same length.
\<close>

definition inside_point ::
  "(real \<times> real \<times> real) \<times> (real \<times> real \<times> real) \<Rightarrow> real \<times> real \<times> real \<Rightarrow> bool" where
  "inside_point b pt =
     (case b of ((lx, ly, lz), (rx, ry, rz)) \<Rightarrow> case pt of (x, y, z) \<Rightarrow>
        (x \<ge> lx \<and> y \<ge> ly \<and> z \<ge> lz) \<and> (x < rx \<and> y < ry \<and> z < rz))"

definition is_inside_fn ::
  "RunChainHOP \<Rightarrow> real list \<times> real list \<times> real list \<Rightarrow> RunChainHOP" where
  "is_inside_fn s pos =
     (case pos of (xs, ys, zs) \<Rightarrow>
        s\<lparr>is_inside := map (inside_point (bounds s)) (zip xs (zip ys zs))\<rparr>)"

text \<open>
  \<open>_find_shift\<close>. One axis: the test against the left edge is the later assignment, so
  it wins. For an inside particle the code returns \<open>numpy.array([0,0,0])\<close>; the name
  \<open>numpy\<close> is taken to be bound by the star imports.
\<close>

definition axis_shift :: "real \<Rightarrow> real \<Rightarrow> real \<Rightarrow> int" where
  "axis_shift le re v = (if v < le then -1 else if v \<ge> re then 1 else 0)"

definition find_shift :: "RunChainHOP \<Rightarrow> int \<Rightarrow> error + int list" where
  "find_shift s i =
     (case np_get (is_inside s) i of Inl e \<Rightarrow> Inl e | Inr inside \<Rightarrow>
      if inside then Inr [0, 0, 0] else
      case bounds s of ((lx, ly, lz), (rx, ry, rz)) \<Rightarrow>
      case np_get (xpos s) i of Inl e \<Rightarrow> Inl e | Inr x \<Rightarrow>
      case np_get (ypos s) i of Inl e \<Rightarrow> Inl e | Inr y \<Rightarrow>
      case np_get (zpos s) i of Inl e \<Rightarrow> Inl e | Inr z \<Rightarrow>
        Inr [axis_shift lx rx x, axis_shift ly ry y, axis_shift lz rz z])"

subsection \<open>Global ID Allocator (\<open>_globally_assign_chainIDs\<close>)\<close>

text \<open>
  \<open>mine\<close> and \<open>chain_info\<close> are what the transport's \<open>_mpi_info_dict\<close> returns (this
  partition's rank and every partition's chain count); they are parameters.

  \<open>chainID\<close> is an array of C longs (\<open>dtype='l'\<close>, 64 bits), \<open>my_first_id\<close> a Python
  integer of any size. \<open>self.chainID[i] += my_first_id\<close> adds in 64 bits and wraps around
  when the offset itself fits in 64 bits; when it does not, the sum is a Python integer
  and storing it raises OverflowError unless it fits.
\<close>

definition in_int64 :: "int \<Rightarrow> bool" where
  "in_int64 x = (- (2 ^ 63) \<le> x \<and> x < 2 ^ 63)"

definition int64_iadd :: "int \<Rightarrow> int \<Rightarrow> error + int" where
  "int64_iadd v x =
     (if in_int64 x then Inr ((v + x + 2 ^ 63) mod 2 ^ 64 - 2 ^ 63)
      else if in_int64 (v + x) then Inr (v + x)
      else Inl OverflowError)"

fun assign_loop :: "nat list \<Rightarrow> int \<Rightarrow> int list \<Rightarrow> error + int list" where
  "assign_loop [] my_first_id c = Inr c"
| "assign_loop (i # rest) my_first_id c =
     (case np_get c (int i) of Inl e \<Rightarrow> Inl e | Inr v \<Rightarrow>
      if v \<noteq> -1 then
        (case int64_iadd v my_first_id of Inl e \<Rightarrow> Inl e | Inr w \<Rightarrow>
         case np_set c (int i) w of Inl e \<Rightarrow> Inl e
         | Inr c' \<Rightarrow> assign_loop rest my_first_id c')
      else assign_loop rest my_first_id c)"

definition globally_assign_chainIDs ::
  "RunChainHOP \<Rightarrow> int \<Rightarrow> (int \<times> int) list \<Rightarrow> error + RunChainHOP" where
  "globally_assign_chainIDs s mine chain_info =
     (let my_first_id = sum_list (map snd (filter (\<lambda>(k, v). k < mine) chain_info))
      in case assign_loop [0..<size_n s] my_first_id (chainID s) of Inl e \<Rightarrow> Inl e
         | Inr c \<Rightarrow> Inr (s\<lparr>chainID := c\<rparr>))"

subsection \<open>Boundary Link Exchanger\<close>

text \<open>
  \<open>_build_uphill_info\<close>. The loop files every padded particle under the key that
  \<open>_translate_shift\<close> returns for its shift vector; the statement after the loop is
  \<open>sys.exit()\<close>, which raises SystemExit.
\<close>

fun build_uphill_info_loop :: "int list \<Rightarrow> RunChainHOP \<Rightarrow> error + RunChainHOP" where
  "build_uphill_info_loop [] s = Inr s"
| "build_uphill_info_loop (part # rest) s =
     (case np_get (index s) part of Inl e \<Rightarrow> Inl e | Inr real_index \<Rightarrow>
      case find_shift s part of Inl e \<Rightarrow> Inl e | Inr shift_v \<Rightarrow>
      case translate_shift None (Some shift_v) of Inl e \<Rightarrow> Inl e
      | Inr (RKey shift_index) \<Rightarrow>
         (case map_of (uphill_info_count s) shift_index of None \<Rightarrow> Inl KeyError | Some n \<Rightarrow>
          let s1 = s\<lparr>uphill_info_count := AList.update shift_index (n + 1) (uphill_info_count s)\<rparr>
          in case np_get (chainID s1) part of Inl e \<Rightarrow> Inl e | Inr c \<Rightarrow>
             case map_of (uphill_info s1) shift_index of None \<Rightarrow> Inl KeyError | Some l \<Rightarrow>
               build_uphill_info_loop rest
                 (s1\<lparr>uphill_info := AList.update shift_index
                    (l @ [\<lparr>local_index = part, particle_index = real_index,
                            pp_chainID = c, shift = shift_v\<rparr>]) (uphill_info s1)\<rparr>))
      | Inr _ \<Rightarrow> Inl KeyError)"

definition build_uphill_info :: "RunChainHOP \<Rightarrow> error + RunChainHOP" where
  "build_uphill_info s =
     (case build_uphill_info_loop (padded_particles s)
             (s\<lparr>uphill_info := map (\<lambda>i. (int i, [])) [0..<27],
                uphill_info_count := map (\<lambda>i. (int i, 0)) [0..<27]\<rparr>) of
        Inl e \<Rightarrow> Inl e
      | Inr s' \<Rightarrow> Inl SystemExit)"

text \<open>
  \<open>_communicate_uphill_info\<close>. The transport is outside the repository's files:
  \<open>find_neighbor_3d\<close> (shift vector to neighbour rank) and the count that
  \<open>_recv_array\<close> delivers for direction \<open>i\<close> are parameters, and every \<open>_send_array\<close>
  is appended to a log of (neighbour, message). A message is a count or a two-element
  record. The payload loop builds its record from the name \<open>chainID\<close>, which is bound
  neither in the method nor in the module (it is a local of \<open>_build_uphill_info\<close> only),
  so its first iteration raises NameError; the receive loop reads the unbound name
  \<open>shift_count\<close> likewise.
\<close>

datatype msg = MCount int | MRecord int int

definition shift_of :: "int \<Rightarrow> error + int list" where
  "shift_of i = (case translate_shift (Some i) None of Inl e \<Rightarrow> Inl e
                 | Inr (RShift v) \<Rightarrow> Inr v | Inr _ \<Rightarrow> Inl TypeError)"

fun send_counts ::
  "(int list \<Rightarrow> int) \<Rightarrow> RunChainHOP \<Rightarrow> nat list \<Rightarrow> (int \<times> msg) list \<Rightarrow>
     (int \<times> msg) list \<times> (error + unit)" where
  "send_counts nb s [] sent = (sent, Inr ())"
| "send_counts nb s (i # rest) sent =
     (if i = 13 then send_counts nb s rest sent else
      case shift_of (int i) of Inl e \<Rightarrow> (sent, Inl e) | Inr shift_v \<Rightarrow>
      case map_of (uphill_info_count s) (int i) of None \<Rightarrow> (sent, Inl KeyError) | Some n \<Rightarrow>
        send_counts nb s rest (sent @ [(nb shift_v, MCount n)]))"

fun recv_counts :: "(int \<Rightarrow> int) \<Rightarrow> nat list \<Rightarrow> RunChainHOP \<Rightarrow> error + RunChainHOP" where
  "recv_counts rc [] s = Inr s"
| "recv_counts rc (i # rest) s =
     (if i = 13 then recv_counts rc rest s else
      case shift_of (int i) of Inl e \<Rightarrow> Inl e | Inr shift_v \<Rightarrow>
        recv_counts rc rest
          (s\<lparr>uphill_recv_count := AList.update (int i) (rc (int i)) (uphill_recv_count s)\<rparr>))"

fun send_payload :: "RunChainHOP \<Rightarrow> (int \<times> int) list \<Rightarrow> error + unit" where
  "send_payload s [] = Inr ()"
| "send_payload s ((shift_index, n) # rest) =
     (if n = 0 then send_payload s rest else
      case shift_of shift_index of Inl e \<Rightarrow> Inl e | Inr shift_v \<Rightarrow>
      case map_of (uphill_info s) shift_index of None \<Rightarrow> Inl KeyError
      | Some [] \<Rightarrow> send_payload s rest
      | Some (info # infos) \<Rightarrow> Inl NameError)"

fun recv_payload :: "(int \<times> int) list \<Rightarrow> error + unit" where
  "recv_payload [] = Inr ()"
| "recv_payload ((shift_index, n) # rest) =
     (if n = 0 then recv_payload rest else
      case shift_of shift_index of Inl e \<Rightarrow> Inl e | Inr shift_v \<Rightarrow> Inl NameError)"

definition communicate_uphill_info ::
  "(int list \<Rightarrow> int) \<Rightarrow> (int \<Rightarrow> int) \<Rightarrow> RunChainHOP \<Rightarrow> (int \<times> msg) list \<Rightarrow>
     (int \<times> msg) list \<times> (error + RunChainHOP)" where
  "communicate_uphill_info nb rc s0 sent0 =
     (let s = s0\<lparr>uphill_recv_count := [], uphill_recv := []\<rparr> in
      case send_counts nb s [0..<27] sent0 of (sent, Inl e) \<Rightarrow> (sent, Inl e) | (sent, Inr u) \<Rightarrow>
      case recv_counts rc [0..<27] s of Inl e \<Rightarrow> (sent, Inl e) | Inr s1 \<Rightarrow>
      case send_payload s1 (uphill_info_count s1) of Inl e \<Rightarrow> (sent, Inl e) | Inr u \<Rightarrow>
      case recv_payload (uphill_recv_count s1) of Inl e \<Rightarrow> (sent, Inl e) | Inr u \<Rightarrow>
        (sent, Inr s1))"

text \<open>
  \<open>_translate_global_to_local_particle_index\<close>: the loop variable \<open>index\<close> of
  \<open>enumerate(self.index)\<close> is the local position (\<open>idx\<close>); the value returned on a
  match is the loop variable \<open>particle_index\<close> (\<open>particle_idx\<close>).
\<close>

fun translate_loop :: "(nat \<times> int) list \<Rightarrow> int \<Rightarrow> int" where
  "translate_loop [] real_index = -1"
| "translate_loop ((idx, particle_idx) # rest) real_index =
     (if particle_idx = real_index then particle_idx else translate_loop rest real_index)"

definition translate_global_to_local_particle_index :: "RunChainHOP \<Rightarrow> int \<Rightarrow> int" where
  "translate_global_to_local_particle_index s real_index =
     translate_loop (enumerate 0 (index s)) real_index"

text \<open>
  \<open>_connect_chains_across_tasks\<close>. \<open>fix_ids\<close> is the loop over
  \<open>enumerate(self.uphill_recv)\<close>, which overwrites each received record in place.
  The body of the \<open>while\<close> sets \<open>changes = 0\<close> and assigns it nowhere else.
\<close>

definition fix_ids :: "RunChainHOP \<Rightarrow> RunChainHOP" where
  "fix_ids s =
     s\<lparr>uphill_recv :=
         map (\<lambda>particle. (translate_global_to_local_particle_index s (fst particle), snd particle))
           (uphill_recv s)\<rparr>"

definition connect_round ::
  "(int list \<Rightarrow> int) \<Rightarrow> (int \<Rightarrow> int) \<Rightarrow> RunChainHOP \<Rightarrow> (int \<times> msg) list \<Rightarrow>
     (int \<times> msg) list \<times> (error + RunChainHOP \<times> int)" where
  "connect_round nb rc s sent0 =
     (case build_uphill_info s of Inl e \<Rightarrow> (sent0, Inl e) | Inr s1 \<Rightarrow>
      case communicate_uphill_info nb rc s1 sent0 of (sent, Inl e) \<Rightarrow> (sent, Inl e)
      | (sent, Inr s2) \<Rightarrow> (sent, Inr (fix_ids s2, 0)))"

partial_function (option) connect_while ::
  "(int list \<Rightarrow> int) \<Rightarrow> (int \<Rightarrow> int) \<Rightarrow> int \<Rightarrow> RunChainHOP \<Rightarrow> (int \<times> msg) list \<Rightarrow>
     ((int \<times> msg) list \<times> (error + RunChainHOP)) option" where
  "connect_while nb rc changes s sent0 =
     (if changes \<noteq> 0 then
        (case connect_round nb rc s sent0 of (sent, Inl e) \<Rightarrow> Some (sent, Inl e)
         | (sent, Inr (s', changes')) \<Rightarrow> connect_while nb rc changes' s' sent)
      else Some (sent0, Inr s))"

definition connect_chains_across_tasks ::
  "(int list \<Rightarrow> int) \<Rightarrow> (int \<Rightarrow> int) \<Rightarrow> RunChainHOP \<Rightarrow>
     ((int \<times> msg) list \<times> (error + RunChainHOP)) option" where
  "connect_chains_across_tasks nb rc s = connect_while nb rc 1 s []"

subsection \<open>The pipeline (\<open>__init__\<close>, \<open>_chain_hop\<close>)\<close>

text \<open>
  \<open>_chain_hop\<close> as written: \<open>_init_kd_tree\<close> and \<open>_is_inside\<close>; the kd-tree calls give
  \<open>density\<close> and (through \<open>_densestNN\<close>) the densest neighbour of each particle, both
  taken as parameters; then \<open>_build_chains\<close>, \<open>_globally_assign_chainIDs\<close> and
  \<open>_build_uphill_info\<close>. The calls that would follow are commented out in the source.
  \<open>depth\<close> is the number of nested calls the interpreter allows to \<open>_recurse_links\<close>
  inside \<open>_build_chains\<close>.
\<close>

definition chain_hop ::
  "nat \<Rightarrow> RunChainHOP \<Rightarrow> real list \<Rightarrow> int list \<Rightarrow> int \<Rightarrow> (int \<times> int) list \<Rightarrow>
     error + RunChainHOP" where
  "chain_hop depth s dens dnn mine chain_info =
     (case init_kd_tree s of Inl e \<Rightarrow> Inl e | Inr pos \<Rightarrow>
      let s1 = is_inside_fn s pos;
          s2 = s1\<lparr>density := dens, densestNN := dnn\<rparr>
      in case build_chains depth s2 of Inl e \<Rightarrow> Inl e
         | Inr (s3, chain_count) \<Rightarrow>
            (case globally_assign_chainIDs s3 mine chain_info of Inl e \<Rightarrow> Inl e
             | Inr s4 \<Rightarrow>
                (case build_uphill_info s4 of Inl e \<Rightarrow> Inl e
                 | Inr s5 \<Rightarrow> Inr s5)))"

text \<open>
  The constructor: the field assignments, then \<open>_chain_hop\<close>. The thresholds are Python
  floats and \<open>2.5 * threshold\<close>, \<open>3 * threshold\<close> are products of floats, which round;
  \<open>fmul\<close> is that multiplication, a parameter. On the thresholds of the examples below
  (3 and 160) the products are exact, and \<open>times\<close> is used.
\<close>

definition init_fields ::
  "(real \<Rightarrow> real \<Rightarrow> real) \<Rightarrow> (real \<times> real \<times> real) \<times> (real \<times> real \<times> real) \<Rightarrow>
     real list \<Rightarrow> real list \<Rightarrow> real list \<Rightarrow> int list \<Rightarrow> real \<Rightarrow> RunChainHOP" where
  "init_fields fmul bnds xs ys zs idx thr =
     \<lparr>threshold = thr, saddlethresh = fmul 2.5 thr, peakthresh = fmul 3 thr, bounds = bnds,
      xpos = xs, ypos = ys, zpos = zs, index = idx, padded_particles = [],
      size_n = length xs, chainID = replicate (length xs) (-1), is_inside = [],
      density = [], densestNN = [], densest_in_chain = [], uphill_info = [],
      uphill_info_count = [], uphill_recv_count = [], uphill_recv = [],
      chain_densest_n = [], reverse_map = [], densest_in_group = [], visited = []\<rparr>"

definition RunChainHOP_init ::
  "nat \<Rightarrow> (real \<Rightarrow> real \<Rightarrow> real) \<Rightarrow> (real \<times> real \<times> real) \<times> (real \<times> real \<times> real) \<Rightarrow>
     real list \<Rightarrow> real list \<Rightarrow> real list \<Rightarrow> int list \<Rightarrow> real \<Rightarrow> real list \<Rightarrow> int list \<Rightarrow>
     int \<Rightarrow> (int \<times> int) list \<Rightarrow> error + RunChainHOP" where
  "RunChainHOP_init depth fmul bnds xs ys zs idx thr dens dnn mine chain_info =
     chain_hop depth (init_fields fmul bnds xs ys zs idx thr) dens dnn mine chain_info"

subsection \<open>Translation to group ids (\<open>_translate_groupIDs\<close>)\<close>

text \<open>
  \<open>_translate_groupIDs(group_count)\<close>: the loop over the particles, which skips chain id
  -1, then the loop that fills \<open>densest_in_group\<close>.
\<close>

fun translate_ids_loop :: "nat list \<Rightarrow> (int \<times> int) list \<Rightarrow> int list \<Rightarrow> error + int list" where
  "translate_ids_loop [] rm c = Inr c"
| "translate_ids_loop (i # rest) rm c =
     (case np_get c (int i) of Inl e \<Rightarrow> Inl e | Inr v \<Rightarrow>
      if v = -1 then translate_ids_loop rest rm c else
      case map_of rm v of None \<Rightarrow> Inl KeyError | Some g \<Rightarrow>
      (case np_set c (int i) g of Inl e \<Rightarrow> Inl e
       | Inr c' \<Rightarrow> translate_ids_loop rest rm c'))"

fun group_dens_loop ::
  "(int \<times> real) list \<Rightarrow> (int \<times> int) list \<Rightarrow> (int \<times> real) list \<Rightarrow> error + (int \<times> real) list" where
  "group_dens_loop [] rm dg = Inr dg"
| "group_dens_loop ((chain, max_dens) # rest) rm dg =
     (case map_of rm chain of None \<Rightarrow> Inl KeyError | Some groupID \<Rightarrow>
      if groupID = -1 then group_dens_loop rest rm dg else
      case map_of dg groupID of None \<Rightarrow> Inl KeyError | Some d \<Rightarrow>
      if d < max_dens then group_dens_loop rest rm (AList.update groupID max_dens dg)
      else group_dens_loop rest rm dg)"

definition translate_groupIDs :: "RunChainHOP \<Rightarrow> int \<Rightarrow> error + RunChainHOP" where
  "translate_groupIDs s group_count =
     (case translate_ids_loop [0..<size_n s] (reverse_map s) (chainID s) of Inl e \<Rightarrow> Inl e
      | Inr c \<Rightarrow>
     (case group_dens_loop (densest_in_chain s) (reverse_map s)
             (map (\<lambda>i. (int i, 0)) [0..<nat group_count]) of Inl e \<Rightarrow> Inl e
      | Inr dg \<Rightarrow> Inr (s\<lparr>chainID := c, densest_in_group := dg\<rparr>)))"

subsection \<open>Group Assembler (\<open>_build_groups\<close>)\<close>

text \<open>
  \<open>_build_groups(chain_count)\<close>. The loops work on three locals and one field: the
  reverse map, \<open>densestbound\<close>, and the fringe list (the parallel lists \<open>g_high\<close>,
  \<open>g_low\<close>, \<open>g_dens\<close>, always appended together). A dictionary's iteration order is the
  order of its association list.
\<close>

type_synonym gstate = "(int \<times> int) list \<times> (int \<times> real) list \<times> (int \<times> int \<times> real) list"

text \<open>Seeding: every chain whose densest member reaches \<open>peakthresh\<close> gets a new group id.\<close>

fun seed_loop ::
  "(int \<times> real) list \<Rightarrow> real \<Rightarrow> (int \<times> int) list \<Rightarrow> int \<Rightarrow> (int \<times> int) list \<times> int" where
  "seed_loop [] peak rm groupID = (rm, groupID)"
| "seed_loop ((chain, d) # rest) peak rm groupID =
     (if d \<ge> peak then seed_loop rest peak (AList.update chain groupID rm) (groupID + 1)
      else seed_loop rest peak rm groupID)"

text \<open>
  \<open>for chID in self.reverse_map: if self.reverse_map[chID] == old: self.reverse_map[chID] = new\<close>
\<close>

definition relabel :: "int \<Rightarrow> int \<Rightarrow> (int \<times> int) list \<Rightarrow> (int \<times> int) list" where
  "relabel old new rm = map (\<lambda>(chID, g). (chID, if g = old then new else g)) rm"

text \<open>The body of the double loop over \<open>chain_densest_n\<close>, for one link.\<close>

definition link_step ::
  "(int \<times> real) list \<Rightarrow> real \<Rightarrow> real \<Rightarrow> int \<Rightarrow> int \<Rightarrow> real \<Rightarrow> gstate \<Rightarrow> error + gstate" where
  "link_step dic peak saddle chain_high chain_low dens st =
     (case st of (rm, db, g) \<Rightarrow>
      case map_of dic chain_high of None \<Rightarrow> Inl KeyError | Some max_dens_high \<Rightarrow>
      case map_of dic chain_low of None \<Rightarrow> Inl KeyError | Some max_dens_low \<Rightarrow>
      if max_dens_high < peak \<and> max_dens_low < peak
      then Inr (rm, db, g @ [(chain_high, chain_low, dens)])
      else if max_dens_high \<ge> peak \<and> max_dens_low \<ge> peak
      then (if dens < saddle then Inr st else
            case map_of rm chain_high of None \<Rightarrow> Inl KeyError | Some group_high \<Rightarrow>
            case map_of rm chain_low of None \<Rightarrow> Inl KeyError | Some group_low \<Rightarrow>
              Inr (relabel group_low group_high rm, db, g))
      else
        case map_of rm chain_high of None \<Rightarrow> Inl KeyError | Some group_high \<Rightarrow>
        case map_of db chain_low of None \<Rightarrow> Inl KeyError | Some b \<Rightarrow>
          if dens > b
          then Inr (AList.update chain_low group_high rm, AList.update chain_low dens db, g)
          else Inr st)"

fun inner_links ::
  "(int \<times> real) list \<Rightarrow> real \<Rightarrow> real \<Rightarrow> int \<Rightarrow> (int \<times> real) list \<Rightarrow> gstate \<Rightarrow> error + gstate" where
  "inner_links dic peak saddle chain_high [] st = Inr st"
| "inner_links dic peak saddle chain_high ((chain_low, dens) # rest) st =
     (case link_step dic peak saddle chain_high chain_low dens st of Inl e \<Rightarrow> Inl e
      | Inr st' \<Rightarrow> inner_links dic peak saddle chain_high rest st')"

fun outer_links ::
  "(int \<times> real) list \<Rightarrow> real \<Rightarrow> real \<Rightarrow> (int \<times> (int \<times> real) list) list \<Rightarrow> gstate \<Rightarrow>
     error + gstate" where
  "outer_links dic peak saddle [] st = Inr st"
| "outer_links dic peak saddle ((chain_high, inner) # rest) st =
     (case inner_links dic peak saddle chain_high inner st of Inl e \<Rightarrow> Inl e
      | Inr st' \<Rightarrow> outer_links dic peak saddle rest st')"

text \<open>
  One pass of the \<open>for\<close> loop over the fringe list, and the \<open>while changes\<close> loop around
  it (\<open>None\<close> when the loop never ends).
\<close>

fun fringe_pass ::
  "(int \<times> int \<times> real) list \<Rightarrow> (int \<times> int) list \<times> (int \<times> real) list \<times> int \<Rightarrow>
     error + (int \<times> int) list \<times> (int \<times> real) list \<times> int" where
  "fringe_pass [] st = Inr st"
| "fringe_pass ((chain_high, chain_low, dens) # rest) (rm, db, changes) =
     (case map_of db chain_low of None \<Rightarrow> Inl KeyError | Some bl \<Rightarrow>
      if dens > bl then
        (case map_of db chain_high of None \<Rightarrow> Inl KeyError | Some bh \<Rightarrow>
         if bh > bl then
           (case map_of rm chain_high of None \<Rightarrow> Inl KeyError | Some gh \<Rightarrow>
              fringe_pass rest
                (AList.update chain_low gh rm,
                 AList.update chain_low (if dens < bh then dens else bh) db, changes + 1))
         else fringe_pass rest (rm, db, changes))
      else fringe_pass rest (rm, db, changes))"

partial_function (option) fringe_while ::
  "(int \<times> int \<times> real) list \<Rightarrow> int \<Rightarrow> (int \<times> int) list \<Rightarrow> (int \<times> real) list \<Rightarrow>
     (error + (int \<times> int) list \<times> (int \<times> real) list) option" where
  "fringe_while g changes rm db =
     (if changes \<noteq> 0 then
        (case fringe_pass g (rm, db, 0) of Inl e \<Rightarrow> Some (Inl e)
         | Inr (rm', db', changes') \<Rightarrow> fringe_while g changes' rm' db')
      else Some (Inr (rm, db)))"

text \<open>
  Compaction: \<open>temp\<close> is the sorted list of the distinct group ids in the map; the loop runs
  over \<open>enumerate(temp[1:])\<close>, and the count returned is \<open>len(temp) - 1\<close>.
\<close>

fun compact_loop :: "(nat \<times> int) list \<Rightarrow> (int \<times> int) list \<Rightarrow> (int \<times> int) list" where
  "compact_loop [] rm = rm"
| "compact_loop ((t, gID) # rest) rm =
     compact_loop rest (if gID \<noteq> int t then relabel gID (int t) rm else rm)"

definition compaction :: "(int \<times> int) list \<Rightarrow> (int \<times> int) list \<times> int" where
  "compaction rm =
     (let temp = sort (remdups (map snd rm))
      in (compact_loop (enumerate 0 (tl temp)) rm, int (length temp) - 1))"

definition build_groups :: "RunChainHOP \<Rightarrow> int \<Rightarrow> (error + RunChainHOP \<times> int) option" where
  "build_groups s chain_count =
     (let densestbound = map (\<lambda>i. (int i, - 1)) [0..<nat chain_count];
          rm1 = fst (seed_loop (densest_in_chain s) (peakthresh s) (reverse_map s) 0)
      in case outer_links (densest_in_chain s) (peakthresh s) (saddlethresh s)
                (chain_densest_n s) (rm1, densestbound, []) of
           Inl e \<Rightarrow> Some (Inl e)
         | Inr (rm2, db2, g) \<Rightarrow>
            (case fringe_while g 1 rm2 db2 of None \<Rightarrow> None
             | Some (Inl e) \<Rightarrow> Some (Inl e)
             | Some (Inr (rm3, db3)) \<Rightarrow>
                 Some (Inr (s\<lparr>reverse_map := fst (compaction rm3)\<rparr>, snd (compaction rm3)))))"

section \<open>Predicates and example objects\<close>

subsection \<open>Example objects of the exchanger\<close>

text \<open>
  Two particles, the first inside the unit box and the second to its right, with global
  indices 7 and 9; and the same object after a padded particle has been filed for
  direction 0.
\<close>

definition example_obj :: RunChainHOP where
  "example_obj = init_fields times ((0, 0, 0), (1, 1, 1)) [1/2, 3/2] [1/2, 1/2] [1/2, 1/2] [7, 9] 3"

definition example_filed :: RunChainHOP where
  "example_filed =
     example_obj\<lparr>uphill_info_count := (0, 1) # map (\<lambda>i. (int i, 0)) [1..<27],
       uphill_info := (0, [\<lparr>local_index = 1, particle_index = 9, pp_chainID = 4,
                            shift = [1, 0, 0]\<rparr>]) # map (\<lambda>i. (int i, [])) [1..<27]\<rparr>"

definition example_nb :: "int list \<Rightarrow> int" where
  "example_nb v = 9 * (v ! 0) + 3 * (v ! 1) + v ! 2"

subsection \<open>Well-formed arrays and the three branches of \<open>_recurse_links\<close>\<close>

text \<open>
  \<open>wf_arrays\<close>: the per-particle arrays have \<open>self.size\<close> entries and every densest
  neighbour is a particle index. \<open>same_static\<close>: the fields the Chain Builder only reads
  are equal. \<open>adopt_state\<close> and \<open>mint_state\<close> are the states the first two branches of
  \<open>_recurse_links\<close> leave behind.
\<close>

definition wf_arrays :: "RunChainHOP \<Rightarrow> bool" where
  "wf_arrays s \<longleftrightarrow>
     length (chainID s) = size_n s \<and> length (is_inside s) = size_n s \<and>
     length (density s) = size_n s \<and> length (densestNN s) = size_n s \<and>
     list_all (\<lambda>j. 0 \<le> j \<and> j < int (size_n s)) (densestNN s)"

definition same_static :: "RunChainHOP \<Rightarrow> RunChainHOP \<Rightarrow> bool" where
  "same_static s s' \<longleftrightarrow>
     size_n s' = size_n s \<and> is_inside s' = is_inside s \<and> density s' = density s \<and>
     densestNN s' = densestNN s \<and> threshold s' = threshold s"

definition enter :: "RunChainHOP \<Rightarrow> int \<Rightarrow> RunChainHOP" where
  "enter s p = s\<lparr>visited := visited s @ [p]\<rparr>"

definition nn_of :: "RunChainHOP \<Rightarrow> int \<Rightarrow> int" where
  "nn_of s p = densestNN s ! nat p"

definition adopt_state :: "RunChainHOP \<Rightarrow> int \<Rightarrow> RunChainHOP" where
  "adopt_state s p =
     (enter s p)\<lparr>chainID := (chainID s)[nat p := chainID s ! nat (nn_of s p)]\<rparr>"

definition mint_state :: "RunChainHOP \<Rightarrow> int \<Rightarrow> int \<Rightarrow> RunChainHOP" where
  "mint_state s p c =
     (let s1 = (enter s p)\<lparr>chainID := (chainID s)[nat p := c],
                 densest_in_chain := AList.update c (density s ! nat p) (densest_in_chain s)\<rparr>
      in if is_inside s ! nat p then s1
         else s1\<lparr>padded_particles := padded_particles s @ [p]\<rparr>)"

subsection \<open>Particles below the threshold\<close>

definition nn_not_less_dense :: "RunChainHOP \<Rightarrow> bool" where
  "nn_not_less_dense s \<longleftrightarrow>
     list_all (\<lambda>i. density s ! i \<le> density s ! nat (densestNN s ! i)) [0..<size_n s]"

definition unassigned :: "RunChainHOP \<Rightarrow> bool" where
  "unassigned s \<longleftrightarrow> list_all (\<lambda>c. c = -1) (chainID s)"

definition assigned_dense :: "RunChainHOP \<Rightarrow> bool" where
  "assigned_dense s \<longleftrightarrow>
     (\<forall>i < size_n s. chainID s ! i \<noteq> -1 \<longrightarrow> threshold s \<le> density s ! i)"

text \<open>
  \<open>example_slope\<close>: three inside particles of densities 5, 1, 6 with threshold 3;
  particle 0 links to particle 2, particles 1 and 2 are their own densest neighbours.
\<close>

definition example_slope :: RunChainHOP where
  "example_slope =
     (init_fields times ((0, 0, 0), (1, 1, 1)) [1/4, 1/2, 3/4] [1/2, 1/2, 1/2] [1/2, 1/2, 1/2]
        [10, 11, 12] 3)
     \<lparr>is_inside := [True, True, True], density := [5, 1, 6], densestNN := [2, 1, 2]\<rparr>"

definition example_slope_chains :: RunChainHOP where
  "example_slope_chains =
     example_slope\<lparr>chainID := [0, -1, 0], densest_in_chain := [(0, 6)], visited := [0, 2]\<rparr>"

definition example_slope_groups :: RunChainHOP where
  "example_slope_groups =
     example_slope_chains\<lparr>chain_densest_n := [(0, [])], reverse_map := [(0, 0)],
        densest_in_group := [(0, 6)]\<rparr>"

subsection \<open>One densest member per chain\<close>

text \<open>
  \<open>terminal s i\<close>: particle \<open>i\<close> is its own densest neighbour or is not inside.
  \<open>chains_ok s m\<close>: the chain ids assigned so far are below \<open>m\<close>, each of 0 .. m - 1 has
  exactly one terminal member, \<open>densest_in_chain\<close> maps a terminal member's chain id to
  its density, and its keys are 0 .. m - 1.
\<close>

definition terminal :: "RunChainHOP \<Rightarrow> nat \<Rightarrow> bool" where
  "terminal s i \<longleftrightarrow> densestNN s ! i = int i \<or> \<not> is_inside s ! i"

definition chains_ok :: "RunChainHOP \<Rightarrow> int \<Rightarrow> bool" where
  "chains_ok s m \<longleftrightarrow>
     (\<forall>i < size_n s. chainID s ! i = -1 \<or> (0 \<le> chainID s ! i \<and> chainID s ! i < m)) \<and>
     (\<forall>k. 0 \<le> k \<and> k < m \<longrightarrow> (\<exists>!i. i < size_n s \<and> chainID s ! i = k \<and> terminal s i)) \<and>
     (\<forall>i < size_n s. terminal s i \<longrightarrow> chainID s ! i \<noteq> -1 \<longrightarrow>
        map_of (densest_in_chain s) (chainID s ! i) = Some (density s ! i)) \<and>
     fst ` set (densest_in_chain s) = {k. 0 \<le> k \<and> k < m} \<and>
     distinct (map fst (densest_in_chain s))"

subsection \<open>Termination of the chain following\<close>










subsection \<open>Example chain data\<close>

text \<open>
  One chain above the peak threshold (480) and no link; two such chains and no link.
  The reverse map is the one \<open>_connect_chains\<close> leaves: every chain on -1.
\<close>

definition example_one_peak :: RunChainHOP where
  "example_one_peak =
     (init_fields times ((0, 0, 0), (1, 1, 1)) [1/2] [1/2] [1/2] [7] 160)
     \<lparr>densest_in_chain := [(0, 500)], chain_densest_n := [(0, [])], reverse_map := [(0, -1)]\<rparr>"

definition example_two_peaks :: RunChainHOP where
  "example_two_peaks =
     (init_fields times ((0, 0, 0), (1, 1, 1)) [1/4, 3/4] [1/2, 1/2] [1/2, 1/2] [7, 9] 160)
     \<lparr>densest_in_chain := [(0, 500), (1, 600)], chain_densest_n := [(0, []), (1, [])],
      reverse_map := [(0, -1), (1, -1)]\<rparr>"

subsection \<open>Two runs of the Group Assembler\<close>

text \<open>
  Two runs on the same chain data are compared, the first from the reverse map that
  \<open>_connect_chains\<close> leaves (every chain on -1), the second from the first run's result.
  A chain is \<open>fresh\<close> once the current run has given it a group: it is a peak chain
  (seeded) or its \<open>densestbound\<close> has been raised above -1. \<open>sim N F rm1 rm2\<close> relates
  the reverse maps of the two runs at the same step: same keys; on fresh chains the same
  group, not negative; other chains on -1 in the first run, and in the second run too
  if they started it on -1 (the chains in \<open>N\<close>).
\<close>

definition is_peak :: "(int \<times> real) list \<Rightarrow> real \<Rightarrow> int \<Rightarrow> bool" where
  "is_peak dic peak k \<longleftrightarrow> (\<exists>d. map_of dic k = Some d \<and> peak \<le> d)"

definition fresh :: "(int \<times> real) list \<Rightarrow> real \<Rightarrow> (int \<times> real) list \<Rightarrow> int set" where
  "fresh dic peak db = {k. is_peak dic peak k \<or> (\<exists>b. map_of db k = Some b \<and> - 1 < b)}"

definition db_ok :: "(int \<times> real) list \<Rightarrow> bool" where
  "db_ok db \<longleftrightarrow> (\<forall>k b. map_of db k = Some b \<longrightarrow> - 1 \<le> b)"

definition sim :: "int set \<Rightarrow> int set \<Rightarrow> (int \<times> int) list \<Rightarrow> (int \<times> int) list \<Rightarrow> bool" where
  "sim N F rm1 rm2 \<longleftrightarrow>
     map fst rm1 = map fst rm2 \<and>
     (\<forall>k v. k \<in> F \<longrightarrow> map_of rm1 k = Some v \<longrightarrow> 0 \<le> v \<and> map_of rm2 k = Some v) \<and>
     (\<forall>k v. k \<notin> F \<longrightarrow> map_of rm1 k = Some v \<longrightarrow> v = -1) \<and>
     (\<forall>k. k \<in> N \<longrightarrow> k \<notin> F \<longrightarrow> map_of rm2 k = Some (-1))"

definition gkeys :: "(int \<times> int \<times> real) list \<Rightarrow> (int \<times> int) list \<Rightarrow> bool" where
  "gkeys g rm \<longleftrightarrow> (\<forall>(h, l, d) \<in> set g. l \<in> fst ` set rm)"

text \<open>
  \<open>link_ok\<close>: what \<open>_connect_chains\<close> establishes for a link it records under
  \<open>chain_densest_n[higher][lower]\<close>: the lower chain is a key of the reverse map, and the
  higher chain's densest member is at least as dense as the lower chain's.
\<close>

definition link_ok :: "(int \<times> real) list \<Rightarrow> int set \<Rightarrow> int \<Rightarrow> int \<Rightarrow> bool" where
  "link_ok dic K h l \<longleftrightarrow>
     l \<in> K \<and>
     (case map_of dic h of None \<Rightarrow> True
      | Some mh \<Rightarrow> (case map_of dic l of None \<Rightarrow> True | Some ml \<Rightarrow> ml \<le> mh))"

definition links_ok ::
  "(int \<times> real) list \<Rightarrow> int set \<Rightarrow> (int \<times> (int \<times> real) list) list \<Rightarrow> bool" where
  "links_ok dic K links \<longleftrightarrow>
     list_all (\<lambda>(h, inner). list_all (\<lambda>(l, d). link_ok dic K h l) inner) links"

text \<open>
  \<open>chain_data_ok\<close>: the chain data as \<open>_connect_chains\<close> hands it to \<open>_build_groups\<close>.
  The dictionaries have distinct keys; the reverse map has every chain on -1; every chain
  with a densest member is a key of the reverse map; every recorded link is \<open>link_ok\<close>.
\<close>

definition chain_data_ok :: "RunChainHOP \<Rightarrow> bool" where
  "chain_data_ok s \<longleftrightarrow>
     distinct (map fst (reverse_map s)) \<and>
     list_all (\<lambda>(ch, g). g = - 1) (reverse_map s) \<and>
     distinct (map fst (densest_in_chain s)) \<and>
     list_all (\<lambda>(ch, d). ch \<in> fst ` set (reverse_map s)) (densest_in_chain s) \<and>
     links_ok (densest_in_chain s) (fst ` set (reverse_map s)) (chain_densest_n s)"

text \<open>
  Five chains with threshold 160 (peak 480, saddle 400): two peak chains joined across a
  saddle of 450, a fringe chain attached to the first, a second fringe chain attached
  through the first one, and an isolated chain that stays on -1.
\<close>

definition example_groups :: RunChainHOP where
  "example_groups =
     (init_fields times ((0, 0, 0), (1, 1, 1)) [] [] [] [] 160)
     \<lparr>densest_in_chain := [(0, 500), (1, 490), (2, 200), (3, 100), (4, 100)],
      chain_densest_n := [(0, [(1, 450), (2, 300)]), (1, []), (2, [(3, 150)]), (3, []), (4, [])],
      reverse_map := [(0, - 1), (1, - 1), (2, - 1), (3, - 1), (4, - 1)]\<rparr>"

definition example_groups_built :: RunChainHOP where
  "example_groups_built =
     example_groups\<lparr>reverse_map := [(0, 0), (1, 0), (2, 0), (3, 0), (4, - 1)]\<rparr>"

section \<open>Properties\<close>

subsection \<open>The shift encoding is not inverted by the lookup\<close>

lemma find_key_shift_table:
  "find_key shift_table v = (if np_all v then RKey 0 else RKey 1)"
  by (simp add: shift_table_def np_all_def)

lemma find_key_all_cong: "np_all v = np_all w \<Longrightarrow> find_key d v = find_key d w"
  by (induction d) auto

text \<open>
  Claim C5. The spec asks that translating an integer 0..26 to its shift vector and back
  gives the integer again. The lookup by vector compares only the truth values of
  \<open>all()\<close>: key 2 goes to the vector (-1,-1,1), and that vector comes back as key 0.
\<close>

theorem C5_translate_shift_roundtrip_fails:
  "translate_shift (Some 2) None = Inr (RShift [-1, -1, 1]) \<and>
   translate_shift None (Some [-1, -1, 1]) = Inr (RKey 0) \<and>
   translate_shift None (Some [-1, -1, -1]) = Inr (RKey 0)"
  by (simp add: translate_shift_def translate_shift_in_def find_key_shift_table np_all_def)
    (simp add: shift_table_def)

subsection \<open>\<open>_build_uphill_info\<close> always raises\<close>

lemma build_uphill_info_exits: "\<exists>e. build_uphill_info s = Inl e"
  by (simp add: build_uphill_info_def split: sum.splits)

lemma build_uphill_info_not_Inr: "build_uphill_info s \<noteq> Inr s'"
  using build_uphill_info_exits [of s] by auto

lemma connect_round_raises: "\<exists>e. connect_round nb rc s sent0 = (sent0, Inl e)"
  using build_uphill_info_exits [of s] by (auto simp: connect_round_def)

lemma connect_chains_across_tasks_raises:
  "\<exists>e. connect_chains_across_tasks nb rc s = Some ([], Inl e)"
proof -
  obtain e where "connect_round nb rc s [] = ([], Inl e)"
    using connect_round_raises by blast
  then show ?thesis
    by (simp add: connect_chains_across_tasks_def connect_while.simps)
qed

lemma chain_hop_never_returns: "chain_hop depth s dens dnn mine ci \<noteq> Inr s'"
  by (auto simp: chain_hop_def Let_def build_uphill_info_not_Inr
      split: sum.splits prod.splits)

lemmas recurse_links_numeral =
  recurse_links.simps(2) [where depth = "pred_numeral k" for k, folded numeral_eq_Suc]

lemma one_particle_run:
  "RunChainHOP_init 1000 times ((0, 0, 0), (1, 1, 1)) [1/2] [1/2] [1/2] [7] 3 [5] [0] 0
     [(0, 1)] = Inl SystemExit"
  apply (simp add: RunChainHOP_init_def chain_hop_def init_fields_def init_kd_tree_def
      pos_row_def is_inside_fn_def inside_point_def build_chains_def Let_def)
  apply (simp add: np_get_def np_index_def recurse_links_numeral Let_def np_set_def)
  apply (simp add: globally_assign_chainIDs_def np_get_def np_index_def np_set_def
      int64_iadd_def in_int64_def build_uphill_info_def)
  done

text \<open>
  Claim C10. \<open>_build_uphill_info\<close> never returns normally: whatever the object, it ends
  in an exception, SystemExit when its loop raises nothing. So \<open>_chain_hop\<close> and the
  constructor never return an object, whatever the recursion depth available and the
  rounding of the threshold products, and nothing after the call of
  \<open>_build_uphill_info\<close> is reached; a run on one inside particle ends in SystemExit.
\<close>

theorem C10_pipeline_stops_at_build_uphill_info:
  "(\<forall>s. \<exists>e. build_uphill_info s = Inl e) \<and>
   (\<forall>s. build_uphill_info s =
      (case build_uphill_info_loop (padded_particles s)
              (s\<lparr>uphill_info := map (\<lambda>i. (int i, [])) [0..<27],
                 uphill_info_count := map (\<lambda>i. (int i, 0)) [0..<27]\<rparr>) of
         Inl e \<Rightarrow> Inl e | Inr s' \<Rightarrow> Inl SystemExit)) \<and>
   (\<forall>depth s dens dnn mine ci s'. chain_hop depth s dens dnn mine ci \<noteq> Inr s') \<and>
   (\<forall>depth fmul bnds xs ys zs idx thr dens dnn mine ci s'.
      RunChainHOP_init depth fmul bnds xs ys zs idx thr dens dnn mine ci \<noteq> Inr s') \<and>
   RunChainHOP_init 1000 times ((0, 0, 0), (1, 1, 1)) [1/2] [1/2] [1/2] [7] 3 [5] [0] 0
     [(0, 1)] = Inl SystemExit"
  using build_uphill_info_exits chain_hop_never_returns one_particle_run
  by (simp add: RunChainHOP_init_def build_uphill_info_def)

subsection \<open>The exchange round changes no chain id\<close>

lemma chainID_fix_ids: "chainID (fix_ids s) = chainID s"
  by (simp add: fix_ids_def)

lemma recv_counts_chainID: "recv_counts rc ks s = Inr s' \<Longrightarrow> chainID s' = chainID s"
  by (induction ks arbitrary: s) (auto split: if_splits sum.splits)

lemma communicate_chainID:
  "communicate_uphill_info nb rc s sent0 = (sent, Inr s') \<Longrightarrow> chainID s' = chainID s"
  by (auto simp: communicate_uphill_info_def Let_def split: prod.splits sum.splits
      dest!: recv_counts_chainID)

text \<open>
  Claim C1. The spec has every received reassignment applied to the chainID array, a
  changed flag raised when an assignment differs, and another round when some partition
  changed. In the code the round raises in \<open>_build_uphill_info\<close> before anything is sent;
  the loop over the received records rewrites \<open>uphill_recv\<close> only and leaves \<open>chainID\<close>
  as it was (here: a received record gives chain 3 to the particle with global index 9,
  whose chain id stays 1); and \<open>changes\<close> is 0 at the end of every round.
\<close>

theorem C1_round_applies_no_reassignment:
  "(\<forall>nb rc s sent0. \<exists>e. connect_round nb rc s sent0 = (sent0, Inl e)) \<and>
   (\<forall>nb rc s. \<exists>e. connect_chains_across_tasks nb rc s = Some ([], Inl e)) \<and>
   (\<forall>s. chainID (fix_ids s) = chainID s) \<and>
   chainID (fix_ids (example_obj\<lparr>chainID := [0, 1], uphill_recv := [(9, 3)]\<rparr>)) = [0, 1]"
  using connect_round_raises connect_chains_across_tasks_raises
  by (simp add: chainID_fix_ids)

subsection \<open>Translating a received global index\<close>

lemma translate_loop_miss:
  "real_index \<notin> snd ` set ps \<Longrightarrow> translate_loop ps real_index = -1"
  by (induction ps real_index rule: translate_loop.induct) auto

lemma translate_miss:
  "real_index \<notin> set (index s) \<Longrightarrow> translate_global_to_local_particle_index s real_index = -1"
proof -
  assume miss: "real_index \<notin> set (index s)"
  have "snd ` set (enumerate 0 (index s)) = set (index s)"
    by (metis map_snd_enumerate set_map)
  with miss show ?thesis
    by (simp add: translate_global_to_local_particle_index_def translate_loop_miss)
qed

text \<open>
  Claim C2, as stated, fails. With global indices [7, 9] the particle with global index 9
  is local particle 1, and the translation returns 9; a record whose global index 5 is
  unknown stays in \<open>uphill_recv\<close>, with -1 in place of the index.
\<close>

theorem C2_counterexample:
  "np_get (index example_obj) 1 = Inr 9 \<and>
   translate_global_to_local_particle_index example_obj 9 = 9 \<and>
   uphill_recv (fix_ids (example_obj\<lparr>uphill_recv := [(9, 3), (5, 4)]\<rparr>)) = [(9, 3), (-1, 4)]"
  by code_simp

text \<open>
  Claim C2, amended. When no local particle has the record's global index the
  translation returns -1. The record is not dropped: the loop over the received records
  keeps their number and each record's chain id, a record that misses carries -1 as its
  index, and no field other than \<open>uphill_recv\<close> changes (no count of misses is kept).
\<close>

theorem C2_miss_is_minus_one_and_kept:
  "(real_index \<notin> set (index s) \<longrightarrow>
      translate_global_to_local_particle_index s real_index = -1) \<and>
   length (uphill_recv (fix_ids s)) = length (uphill_recv s) \<and>
   map snd (uphill_recv (fix_ids s)) = map snd (uphill_recv s) \<and>
   (\<forall>r \<in> set (uphill_recv s). fst r \<notin> set (index s) \<longrightarrow>
      (-1, snd r) \<in> set (uphill_recv (fix_ids s))) \<and>
   (\<exists>r. fix_ids s = s\<lparr>uphill_recv := r\<rparr>)"
proof (intro conjI)
  show "real_index \<notin> set (index s) \<longrightarrow>
      translate_global_to_local_particle_index s real_index = -1"
    by (simp add: translate_miss)
  show "length (uphill_recv (fix_ids s)) = length (uphill_recv s)"
    by (simp add: fix_ids_def)
  show "map snd (uphill_recv (fix_ids s)) = map snd (uphill_recv s)"
    by (simp add: fix_ids_def comp_def)
  show "\<forall>r \<in> set (uphill_recv s). fst r \<notin> set (index s) \<longrightarrow>
      (-1, snd r) \<in> set (uphill_recv (fix_ids s))"
  proof (intro ballI impI)
    fix r assume r: "r \<in> set (uphill_recv s)" and miss: "fst r \<notin> set (index s)"
    have "(translate_global_to_local_particle_index s (fst r), snd r)
            \<in> set (uphill_recv (fix_ids s))"
      using r by (force simp: fix_ids_def)
    then show "(-1, snd r) \<in> set (uphill_recv (fix_ids s))"
      using translate_miss [OF miss] by simp
  qed
  show "\<exists>r. fix_ids s = s\<lparr>uphill_recv := r\<rparr>"
    by (auto simp: fix_ids_def)
qed

theorem C2_miss_is_minus_one_and_kept_witness:
  "5 \<notin> set (index example_obj) \<and>
   translate_global_to_local_particle_index example_obj 5 = -1 \<and>
   (-1, 4) \<in> set (uphill_recv (fix_ids (example_obj\<lparr>uphill_recv := [(9, 3), (5, 4)]\<rparr>)))"
proof -
  have idx: "index example_obj = [7, 9]"
    by (simp add: example_obj_def init_fields_def)
  have miss: "5 \<notin> set (index (example_obj\<lparr>uphill_recv := [(9, 3), (5, 4)]\<rparr>))"
    by (simp add: idx)
  from C2_miss_is_minus_one_and_kept
    [of 5 "example_obj\<lparr>uphill_recv := [(9, 3), (5, 4)]\<rparr>"]
  have "translate_global_to_local_particle_index
          (example_obj\<lparr>uphill_recv := [(9, 3), (5, 4)]\<rparr>) 5 = -1"
    and "(-1, snd (5::int, 4::int))
          \<in> set (uphill_recv (fix_ids (example_obj\<lparr>uphill_recv := [(9, 3), (5, 4)]\<rparr>)))"
    using miss by auto
  then show ?thesis
    by (simp add: idx translate_global_to_local_particle_index_def)
qed

subsection \<open>What \<open>_communicate_uphill_info\<close> sends\<close>

lemma send_counts_only_counts:
  "\<exists>cs. fst (send_counts nb s ks sent) = sent @ map (\<lambda>(n, c). (n, MCount c)) cs"
proof (induction ks arbitrary: sent)
  case Nil
  show ?case by (rule exI [of _ "[]"]) simp
next
  case (Cons i ks)
  show ?case
  proof (cases "i = 13")
    case True
    then show ?thesis using Cons.IH [of sent] by simp
  next
    case False
    show ?thesis
    proof (cases "shift_of (int i)")
      case (Inl e)
      then show ?thesis using False by (intro exI [of _ "[]"]) simp
    next
      case (Inr v)
      show ?thesis
      proof (cases "map_of (uphill_info_count s) (int i)")
        case None
        then show ?thesis using False Inr by (intro exI [of _ "[]"]) simp
      next
        case (Some n)
        obtain cs where "fst (send_counts nb s ks (sent @ [(nb v, MCount n)])) =
          (sent @ [(nb v, MCount n)]) @ map (\<lambda>(n, c). (n, MCount c)) cs"
          using Cons.IH by blast
        then show ?thesis using False Inr Some
          by (intro exI [of _ "(nb v, n) # cs"]) simp
      qed
    qed
  qed
qed

lemma communicate_sent:
  "fst (communicate_uphill_info nb rc s sent0) =
   fst (send_counts nb (s\<lparr>uphill_recv_count := [], uphill_recv := []\<rparr>) [0..<27] sent0)"
  by (simp add: communicate_uphill_info_def Let_def split: prod.splits sum.splits)

lemma communicate_example_raises:
  "snd (communicate_uphill_info example_nb (\<lambda>i. 0) example_filed []) = Inl NameError"
  by code_simp

lemma communicate_example_sent:
  "map snd (fst (communicate_uphill_info example_nb (\<lambda>i. 0) example_filed [])) =
   MCount 1 # replicate 25 (MCount 0)"
  by code_simp

text \<open>
  Claim C8. The spec has each non-zero count followed by that many records of (global
  particle index, that particle's chain id). The code sends counts only, whatever the
  object: with one padded particle filed for direction 0 it sends the 26 counts (a 1
  and 25 zeros) and then raises NameError while building the first record.
\<close>

theorem C8_only_counts_are_sent:
  "(\<forall>nb rc s sent0. \<exists>cs. fst (communicate_uphill_info nb rc s sent0) =
       sent0 @ map (\<lambda>(n, c). (n, MCount c)) cs) \<and>
   map snd (fst (communicate_uphill_info example_nb (\<lambda>i. 0) example_filed [])) =
     MCount 1 # replicate 25 (MCount 0) \<and>
   snd (communicate_uphill_info example_nb (\<lambda>i. 0) example_filed []) = Inl NameError"
  using send_counts_only_counts communicate_example_raises communicate_example_sent
  by (simp add: communicate_sent)

subsection \<open>Well-formed arrays and the three branches of \<open>_recurse_links\<close>\<close>

lemma np_get_in: "0 \<le> i \<Longrightarrow> i < int (length xs) \<Longrightarrow> np_get xs i = Inr (xs ! nat i)"
  by (simp add: np_get_def np_index_def)

lemma np_set_in: "0 \<le> i \<Longrightarrow> i < int (length xs) \<Longrightarrow> np_set xs i v = Inr (xs[nat i := v])"
  by (simp add: np_set_def np_index_def)

lemma nn_in_range:
  "wf_arrays s \<Longrightarrow> 0 \<le> p \<Longrightarrow> p < int (size_n s) \<Longrightarrow>
   0 \<le> nn_of s p \<and> nn_of s p < int (size_n s)"
  unfolding wf_arrays_def nn_of_def list_all_iff
  by (metis nat_less_iff nth_mem)

lemma recurse_links_unfold:
  assumes wf: "wf_arrays s" and r0: "0 \<le> p" and r1: "p < int (size_n s)"
  shows "recurse_links (Suc d) s p c =
    (if chainID s ! nat (nn_of s p) > -1 \<and> is_inside s ! nat p
     then Inr (adopt_state s p, chainID s ! nat (nn_of s p))
     else if nn_of s p = p \<or> \<not> is_inside s ! nat p
     then Inr (mint_state s p c, c)
     else (case recurse_links d (enter s p) (nn_of s p) c of Inl e \<Rightarrow> Inl e
           | Inr (s', chainIDnew) \<Rightarrow>
              (case np_set (chainID s') p chainIDnew of Inl e \<Rightarrow> Inl e
               | Inr ch \<Rightarrow> Inr (s'\<lparr>chainID := ch\<rparr>, chainIDnew))))"
proof -
  have len: "length (chainID s) = size_n s" "length (is_inside s) = size_n s"
    "length (density s) = size_n s" "length (densestNN s) = size_n s"
    using wf by (auto simp: wf_arrays_def)
  have nn: "0 \<le> nn_of s p" "nn_of s p < int (size_n s)"
    using nn_in_range [OF wf r0 r1] by auto
  show ?thesis
    using r0 r1 nn len
    by (auto simp add: Let_def np_get_in np_set_in adopt_state_def mint_state_def enter_def
        nn_of_def)
qed

lemma recurse_links_rule:
  assumes res: "recurse_links d s p c = Inr y"
    and wf: "wf_arrays s" and rng: "0 \<le> p" "p < int (size_n s)"
    and pre: "Pre s p"
    and adopt: "\<And>s p. \<lbrakk>wf_arrays s; 0 \<le> p; p < int (size_n s); Pre s p;
        chainID s ! nat (nn_of s p) > -1; is_inside s ! nat p\<rbrakk>
        \<Longrightarrow> Post s p (adopt_state s p) (chainID s ! nat (nn_of s p))"
    and mint: "\<And>s p. \<lbrakk>wf_arrays s; 0 \<le> p; p < int (size_n s); Pre s p;
        \<not> (chainID s ! nat (nn_of s p) > -1 \<and> is_inside s ! nat p);
        nn_of s p = p \<or> \<not> is_inside s ! nat p\<rbrakk>
        \<Longrightarrow> Post s p (mint_state s p c) c"
    and descend: "\<And>s p. \<lbrakk>wf_arrays s; 0 \<le> p; p < int (size_n s); Pre s p;
        \<not> chainID s ! nat (nn_of s p) > -1; is_inside s ! nat p; nn_of s p \<noteq> p\<rbrakk>
        \<Longrightarrow> Pre (enter s p) (nn_of s p)"
    and ascend: "\<And>s p s' r. \<lbrakk>wf_arrays s; 0 \<le> p; p < int (size_n s); Pre s p;
        \<not> chainID s ! nat (nn_of s p) > -1; is_inside s ! nat p; nn_of s p \<noteq> p;
        Post (enter s p) (nn_of s p) s' r; same_static s s'; wf_arrays s'\<rbrakk>
        \<Longrightarrow> Post s p (s'\<lparr>chainID := (chainID s')[nat p := r]\<rparr>) r"
  shows "\<exists>s' r. y = (s', r) \<and> Post s p s' r \<and> same_static s s' \<and> wf_arrays s'"
  using res wf rng pre
proof (induction d arbitrary: s p y)
  case 0
  then show ?case by simp
next
  case (Suc d)
  note wf = Suc.prems(2) and r0 = Suc.prems(3) and r1 = Suc.prems(4) and pre = Suc.prems(5)
  note run = Suc.prems(1) [unfolded recurse_links_unfold [OF wf r0 r1]]
  have nn: "0 \<le> nn_of s p" "nn_of s p < int (size_n s)"
    using nn_in_range [OF wf r0 r1] by auto
  have wfe: "wf_arrays (enter s p)" and sse: "same_static s (enter s p)"
    using wf by (auto simp: wf_arrays_def enter_def same_static_def)
  consider (A) "chainID s ! nat (nn_of s p) > -1" "is_inside s ! nat p"
    | (M) "\<not> (chainID s ! nat (nn_of s p) > -1 \<and> is_inside s ! nat p)"
          "nn_of s p = p \<or> \<not> is_inside s ! nat p"
    | (R) "\<not> chainID s ! nat (nn_of s p) > -1" "is_inside s ! nat p" "nn_of s p \<noteq> p"
    by blast
  then show ?case
  proof cases
    case A
    have "y = (adopt_state s p, chainID s ! nat (nn_of s p))"
      using run A by simp
    moreover have "same_static s (adopt_state s p)" "wf_arrays (adopt_state s p)"
      using wf by (auto simp: wf_arrays_def adopt_state_def enter_def same_static_def)
    ultimately show ?thesis using adopt [OF wf r0 r1 pre A] by blast
  next
    case M
    have "y = (mint_state s p c, c)"
      using run M by auto
    moreover have "same_static s (mint_state s p c)" "wf_arrays (mint_state s p c)"
      using wf by (auto simp: wf_arrays_def mint_state_def enter_def same_static_def Let_def)
    ultimately show ?thesis using mint [OF wf r0 r1 pre M] by blast
  next
    case R
    have eq: "(case recurse_links d (enter s p) (nn_of s p) c of Inl e \<Rightarrow> Inl e
           | Inr (s', chainIDnew) \<Rightarrow>
              (case np_set (chainID s') p chainIDnew of Inl e \<Rightarrow> Inl e
               | Inr ch \<Rightarrow> Inr (s'\<lparr>chainID := ch\<rparr>, chainIDnew))) = Inr y"
      using run R by simp
    then obtain y' where y': "recurse_links d (enter s p) (nn_of s p) c = Inr y'"
      by (cases "recurse_links d (enter s p) (nn_of s p) c") auto
    have pre': "Pre (enter s p) (nn_of s p)"
      using descend [OF wf r0 r1 pre R] .
    have nn': "nn_of s p < int (size_n (enter s p))"
      using nn by (simp add: enter_def)
    from Suc.IH [OF y' wfe nn(1) nn' pre']
    obtain s' r where s': "y' = (s', r)" "Post (enter s p) (nn_of s p) s' r"
      "same_static (enter s p) s'" "wf_arrays s'"
      by blast
    have ss: "same_static s s'"
      using s'(3) by (simp add: same_static_def enter_def)
    have len': "length (chainID s') = size_n s"
      using s'(4) ss by (simp add: wf_arrays_def same_static_def)
    have "y = (s'\<lparr>chainID := (chainID s')[nat p := r]\<rparr>, r)"
      using eq y' s'(1) r0 r1 len' by (simp add: np_set_in)
    moreover have "same_static s (s'\<lparr>chainID := (chainID s')[nat p := r]\<rparr>)"
      "wf_arrays (s'\<lparr>chainID := (chainID s')[nat p := r]\<rparr>)"
      using ss s'(4) by (auto simp: wf_arrays_def same_static_def)
    ultimately show ?thesis
      using ascend [OF wf r0 r1 pre R s'(2) ss s'(4)] by blast
  qed
qed

lemma np_get_nat: "i < length xs \<Longrightarrow> np_get xs (int i) = Inr (xs ! i)"
  by (simp add: np_get_in)

lemma recurse_links_shape:
  assumes "recurse_links d s p c = Inr y" "wf_arrays s" "0 \<le> p" "p < int (size_n s)"
  shows "\<exists>s' r. y = (s', r) \<and> same_static s s' \<and> wf_arrays s'"
  using recurse_links_rule [where Pre = "\<lambda>s p. True" and Post = "\<lambda>s p s' r. True", OF assms]
  by blast


lemma build_chains_loop_rule:
  assumes res: "build_chains_loop d ks s m = Inr (s', c)"
    and wf: "wf_arrays s" and ks: "\<forall>i \<in> set ks. i < size_n s"
    and inv: "I s m"
    and step: "\<And>s m i s' r. \<lbrakk>wf_arrays s; i < size_n s; I s m; \<not> chainID s ! i > -1;
        is_inside s ! i; \<not> density s ! i < threshold s;
        recurse_links d s (int i) m = Inr (s', r); same_static s s'; wf_arrays s'\<rbrakk>
        \<Longrightarrow> I s' (if r = m then m + 1 else m)"
  shows "I s' c \<and> same_static s s' \<and> wf_arrays s'"
  using res wf ks inv
proof (induction ks arbitrary: s m)
  case Nil
  then show ?case by (simp add: same_static_def)
next
  case (Cons i ks)
  have i: "i < size_n s" using Cons.prems(3) by simp
  have len: "length (chainID s) = size_n s" "length (is_inside s) = size_n s"
    "length (density s) = size_n s"
    using Cons.prems(2) by (auto simp: wf_arrays_def)
  have ks: "\<forall>i \<in> set ks. i < size_n s" using Cons.prems(3) by simp
  show ?case
  proof (cases "\<not> chainID s ! i > -1 \<and> is_inside s ! i \<and> \<not> density s ! i < threshold s")
    case False
    then have "build_chains_loop d ks s m = Inr (s', c)"
      using Cons.prems(1) i len by (auto simp: np_get_nat split: if_splits)
    then show ?thesis using Cons.IH [OF _ Cons.prems(2) ks Cons.prems(4)] by blast
  next
    case True
    then have eq: "(case recurse_links d s (int i) m of Inl e \<Rightarrow> Inl e
       | Inr (s', chainIDnew) \<Rightarrow>
           build_chains_loop d ks s'
             (if chainIDnew = m then m + 1 else m)) = Inr (s', c)"
      using Cons.prems(1) i len by (simp add: np_get_nat)
    then obtain y where y: "recurse_links d s (int i) m = Inr y"
      by (cases "recurse_links d s (int i) m") auto
    obtain s1 r where s1: "y = (s1, r)" "same_static s s1" "wf_arrays s1"
      using recurse_links_shape [OF y Cons.prems(2)] i by auto
    have rest: "build_chains_loop d ks s1 (if r = m then m + 1 else m) = Inr (s', c)"
      using eq y s1(1) by simp
    have I1: "I s1 (if r = m then m + 1 else m)"
      using step [OF Cons.prems(2) i Cons.prems(4) _ _ _ _ s1(2,3)] True y s1(1) by blast
    have ks1: "\<forall>i \<in> set ks. i < size_n s1" using ks s1(2) by (simp add: same_static_def)
    have "I s' c \<and> same_static s1 s' \<and> wf_arrays s'"
      using Cons.IH [OF rest s1(3) ks1 I1] .
    then show ?thesis using s1(2) by (auto simp: same_static_def)
  qed
qed

subsection \<open>Particles below the threshold\<close>

lemma np_set_nat: "np_set xs (int i) v = Inr ys \<Longrightarrow> ys = xs[i := v]"
  by (auto simp: np_set_def np_index_def split: if_splits)

lemma np_get_nat_Inr: "np_get xs (int i) = Inr v \<Longrightarrow> v = xs ! i"
  by (auto simp: np_get_def np_index_def split: if_splits)

lemma assign_loop_keeps_unassigned:
  "assign_loop ks off c = Inr c' \<Longrightarrow>
   length c' = length c \<and> (\<forall>i < length c. c ! i = -1 \<longrightarrow> c' ! i = -1)"
proof (induction ks arbitrary: c)
  case Nil
  then show ?case by simp
next
  case (Cons k ks)
  from Cons.prems obtain v where v: "np_get c (int k) = Inr v"
    by (cases "np_get c (int k)") auto
  show ?case
  proof (cases "v = -1")
    case True
    then show ?thesis using Cons v by simp
  next
    case False
    from Cons.prems v False obtain w where w: "int64_iadd v off = Inr w"
      by (cases "int64_iadd v off") auto
    from Cons.prems v False w obtain c1 where c1: "np_set c (int k) w = Inr c1"
      and rest: "assign_loop ks off c1 = Inr c'"
      by (cases "np_set c (int k) w") auto
    have c1_eq: "c1 = c[k := w]" using np_set_nat [OF c1] .
    have ck: "c ! k = v" using np_get_nat_Inr [OF v] by simp
    have keep: "c1 ! i = -1" if "c ! i = -1" for i
    proof -
      have "i \<noteq> k" using that ck False by auto
      then show ?thesis using that c1_eq by simp
    qed
    from Cons.IH [OF rest] c1_eq keep show ?thesis
      by auto
  qed
qed

lemma translate_ids_loop_keeps_unassigned:
  "translate_ids_loop ks rm c = Inr c' \<Longrightarrow>
   length c' = length c \<and> (\<forall>i < length c. c ! i = -1 \<longrightarrow> c' ! i = -1)"
proof (induction ks arbitrary: c)
  case Nil
  then show ?case by simp
next
  case (Cons k ks)
  from Cons.prems obtain v where v: "np_get c (int k) = Inr v"
    by (cases "np_get c (int k)") auto
  show ?case
  proof (cases "v = -1")
    case True
    then show ?thesis using Cons v by simp
  next
    case False
    from Cons.prems v False obtain g where g: "map_of rm v = Some g"
      by (cases "map_of rm v") auto
    from Cons.prems v False g obtain c1 where c1: "np_set c (int k) g = Inr c1"
      and rest: "translate_ids_loop ks rm c1 = Inr c'"
      by (cases "np_set c (int k) g") auto
    have c1_eq: "c1 = c[k := g]" using np_set_nat [OF c1] .
    have ck: "c ! k = v" using np_get_nat_Inr [OF v] by simp
    have keep: "c1 ! i = -1" if "c ! i = -1" for i
    proof -
      have "i \<noteq> k" using that ck False by auto
      then show ?thesis using that c1_eq by simp
    qed
    from Cons.IH [OF rest] c1_eq keep show ?thesis
      by auto
  qed
qed

lemma nn_not_less_dense_iff:
  "nn_not_less_dense s \<longleftrightarrow>
   (\<forall>i < size_n s. density s ! i \<le> density s ! nat (densestNN s ! i))"
  by (auto simp: nn_not_less_dense_def list_all_iff)

lemma recurse_links_assigned_dense:
  assumes res: "recurse_links d s p c = Inr y"
    and wf: "wf_arrays s" and rng: "0 \<le> p" "p < int (size_n s)"
    and mono: "nn_not_less_dense s" and inv: "assigned_dense s"
    and dense: "threshold s \<le> density s ! nat p"
  shows "\<exists>s' r. y = (s', r) \<and> assigned_dense s' \<and> same_static s s' \<and> wf_arrays s'"
proof -
  let ?Pre = "\<lambda>s p. nn_not_less_dense s \<and> assigned_dense s \<and> threshold s \<le> density s ! nat p"
  let ?Post = "\<lambda>(s :: RunChainHOP) (p :: int) s' (r :: int). assigned_dense s'"
  have upd: "assigned_dense (s'\<lparr>chainID := (chainID s')[nat p := r]\<rparr>)"
    if "assigned_dense s'" "threshold s' \<le> density s' ! nat p" for s' p r
    unfolding assigned_dense_def
  proof (intro allI impI)
    fix i
    assume i: "i < size_n (s'\<lparr>chainID := (chainID s')[nat p := r]\<rparr>)"
      and a: "chainID (s'\<lparr>chainID := (chainID s')[nat p := r]\<rparr>) ! i \<noteq> -1"
    show "threshold (s'\<lparr>chainID := (chainID s')[nat p := r]\<rparr>)
            \<le> density (s'\<lparr>chainID := (chainID s')[nat p := r]\<rparr>) ! i"
    proof (cases "i = nat p")
      case True
      then show ?thesis using that(2) by simp
    next
      case False
      then show ?thesis using that(1) i a by (simp add: assigned_dense_def)
    qed
  qed
  show ?thesis
  proof (rule recurse_links_rule [where Pre = ?Pre and Post = ?Post, OF res wf rng])
    show "?Pre s p" using mono inv dense by simp
  next
    fix s p
    assume "?Pre s p"
    then have "assigned_dense (enter s p)" "threshold (enter s p) \<le> density (enter s p) ! nat p"
      by (auto simp: assigned_dense_def enter_def)
    from upd [OF this] show "?Post s p (adopt_state s p) (chainID s ! nat (nn_of s p))"
      by (simp add: adopt_state_def enter_def)
  next
    fix s p
    assume "?Pre s p"
    then have "assigned_dense (enter s p)" "threshold (enter s p) \<le> density (enter s p) ! nat p"
      by (auto simp: assigned_dense_def enter_def)
    from upd [OF this, of c] show "?Post s p (mint_state s p c) c"
      by (simp add: mint_state_def enter_def Let_def assigned_dense_def)
  next
    fix s p
    assume "?Pre s p" "0 \<le> p" "p < int (size_n s)"
    then show "?Pre (enter s p) (nn_of s p)"
      unfolding nn_not_less_dense_iff
      by (auto simp: assigned_dense_def enter_def nn_of_def dest!: spec [of _ "nat p"])
  next
    fix s p s' r
    assume "?Pre s p" "?Post (enter s p) (nn_of s p) s' r" "same_static s s'"
    then show "?Post s p (s'\<lparr>chainID := (chainID s')[nat p := r]\<rparr>) r"
      by (intro upd) (auto simp: same_static_def)
  qed
qed

lemma build_chains_assigned_dense:
  assumes res: "build_chains d s = Inr (s', c)"
    and wf: "wf_arrays s" and mono: "nn_not_less_dense s" and un: "unassigned s"
  shows "assigned_dense s' \<and> same_static s s' \<and> wf_arrays s'"
proof -
  let ?s0 = "s\<lparr>densest_in_chain := []\<rparr>"
  let ?I = "\<lambda>s (m :: int). nn_not_less_dense s \<and> assigned_dense s"
  have res0: "build_chains_loop d [0..<size_n ?s0] ?s0 0 = Inr (s', c)"
    using res by (simp add: build_chains_def)
  have wf0: "wf_arrays ?s0" using wf by (simp add: wf_arrays_def)
  have len: "length (chainID s) = size_n s" using wf by (simp add: wf_arrays_def)
  have I0: "?I ?s0 0"
    using mono un len
    by (auto simp: nn_not_less_dense_def assigned_dense_def unassigned_def list_all_length)
  have "?I s' c \<and> same_static ?s0 s' \<and> wf_arrays s'"
  proof (rule build_chains_loop_rule [where I = ?I, OF res0 wf0 _ I0])
    show "\<forall>i \<in> set [0..<size_n ?s0]. i < size_n ?s0" by simp
  next
    fix s m i s' r
    assume wf: "wf_arrays s" and i: "i < size_n s" and I: "?I s m"
      and dens: "\<not> density s ! i < threshold s"
      and rl: "recurse_links d s (int i) m = Inr (s', r)"
      and ss: "same_static s s'"
    have "assigned_dense s'"
      using recurse_links_assigned_dense [OF rl wf] i I dens by auto
    moreover have "nn_not_less_dense s'"
      using I ss by (simp add: nn_not_less_dense_def same_static_def)
    ultimately show "?I s' (if r = m then m + 1 else m)" by simp
  qed
  then show ?thesis by (simp add: same_static_def)
qed

lemma example_slope_build: "build_chains 1000 example_slope = Inr (example_slope_chains, 1)"
  by (simp add: example_slope_chains_def example_slope_def init_fields_def build_chains_def
      recurse_links_numeral np_get_def np_set_def np_index_def Let_def upt_rec)

lemma example_slope_assign:
  "globally_assign_chainIDs example_slope_chains 0 [(0, 1)] = Inr example_slope_chains"
  by (simp add: example_slope_chains_def example_slope_def init_fields_def
      globally_assign_chainIDs_def int64_iadd_def in_int64_def np_get_def np_set_def
      np_index_def upt_rec)

lemma example_slope_translate:
  "translate_groupIDs (example_slope_chains\<lparr>chain_densest_n := [(0, [])], reverse_map := [(0, 0)]\<rparr>) 1
     = Inr example_slope_groups"
  by (simp add: example_slope_groups_def example_slope_chains_def example_slope_def
      init_fields_def translate_groupIDs_def np_get_def np_set_def np_index_def upt_rec)

text \<open>
  Claim C6. The object is in the state in which \<open>_chain_hop\<close> calls \<open>_build_chains\<close>:
  the arrays are well formed, no chain id is assigned (the constructor fills \<open>chainID\<close>
  with -1), and \<open>densestNN\<close> is what \<open>_densestNN\<close> computes, the densest member of each
  particle's neighbour list, which holds the particle itself, so that no particle's
  densest neighbour is less dense than the particle. Then a particle whose density is
  below the threshold has chain id -1 after \<open>_build_chains\<close>, after
  \<open>_globally_assign_chainIDs\<close>, and after \<open>_translate_groupIDs\<close> with any reverse map,
  whatever the recursion depth available and whatever offset is added.
\<close>

theorem C6_below_threshold_stays_unassigned:
  assumes wf: "wf_arrays s" and mono: "nn_not_less_dense s" and un: "unassigned s"
    and bc: "build_chains depth s = Inr (s1, chain_count)"
    and ga: "globally_assign_chainIDs s1 mine chain_info = Inr s2"
    and tg: "translate_groupIDs (s2\<lparr>chain_densest_n := cdn, reverse_map := rm\<rparr>) group_count
               = Inr s3"
    and i: "i < size_n s" and low: "density s ! i < threshold s"
  shows "chainID s1 ! i = -1 \<and> chainID s2 ! i = -1 \<and> chainID s3 ! i = -1"
proof -
  from build_chains_assigned_dense [OF bc wf mono un]
  have ad: "assigned_dense s1" and ss: "same_static s s1" and wf1: "wf_arrays s1"
    by auto
  have i1: "i < size_n s1" and low1: "density s1 ! i < threshold s1"
    using i low ss by (auto simp: same_static_def)
  have c1: "chainID s1 ! i = -1"
    using ad i1 low1 by (fastforce simp: assigned_dense_def)
  have len1: "length (chainID s1) = size_n s1" using wf1 by (simp add: wf_arrays_def)
  from ga obtain c where c: "assign_loop [0..<size_n s1]
      (sum_list (map snd (filter (\<lambda>(k, v). k < mine) chain_info))) (chainID s1) = Inr c"
    and s2: "s2 = s1\<lparr>chainID := c\<rparr>"
    by (auto simp: globally_assign_chainIDs_def Let_def split: sum.splits)
  from assign_loop_keeps_unassigned [OF c] c1 i1 len1
  have c2: "chainID s2 ! i = -1" and len2: "length (chainID s2) = size_n s1"
    by (auto simp: s2)
  from tg obtain c' where c': "translate_ids_loop [0..<size_n s2] rm (chainID s2) = Inr c'"
    and s3: "chainID s3 = c'"
    by (auto simp: translate_groupIDs_def split: sum.splits)
  from translate_ids_loop_keeps_unassigned [OF c'] c2 i1 len2
  have "chainID s3 ! i = -1" by (auto simp: s3)
  with c1 c2 show ?thesis by simp
qed

theorem C6_below_threshold_stays_unassigned_witness:
  "wf_arrays example_slope \<and> nn_not_less_dense example_slope \<and> unassigned example_slope \<and>
   density example_slope ! 1 < threshold example_slope \<and>
   build_chains 1000 example_slope = Inr (example_slope_chains, 1) \<and>
   chainID example_slope_chains ! 1 = -1 \<and> chainID example_slope_groups ! 1 = -1"
proof -
  have wf: "wf_arrays example_slope"
    by (simp add: wf_arrays_def example_slope_def init_fields_def)
  have mono: "nn_not_less_dense example_slope"
    by (simp add: nn_not_less_dense_def example_slope_def init_fields_def upt_rec)
  have un: "unassigned example_slope"
    by (simp add: unassigned_def example_slope_def init_fields_def)
  have i: "1 < size_n example_slope" and low: "density example_slope ! 1 < threshold example_slope"
    by (simp_all add: example_slope_def init_fields_def)
  from C6_below_threshold_stays_unassigned
    [OF wf mono un example_slope_build example_slope_assign example_slope_translate i low]
  show ?thesis using wf mono un low example_slope_build by simp
qed

subsection \<open>One densest member per chain\<close>

lemma chains_okI:
  assumes "\<And>i. i < size_n s \<Longrightarrow> chainID s ! i = -1 \<or> (0 \<le> chainID s ! i \<and> chainID s ! i < m)"
    and "\<And>k. 0 \<le> k \<Longrightarrow> k < m \<Longrightarrow> \<exists>!i. i < size_n s \<and> chainID s ! i = k \<and> terminal s i"
    and "\<And>i. i < size_n s \<Longrightarrow> terminal s i \<Longrightarrow> chainID s ! i \<noteq> -1 \<Longrightarrow>
        map_of (densest_in_chain s) (chainID s ! i) = Some (density s ! i)"
    and "fst ` set (densest_in_chain s) = {k. 0 \<le> k \<and> k < m}"
    and "distinct (map fst (densest_in_chain s))"
  shows "chains_ok s m"
  unfolding chains_ok_def using assms by simp

lemma chains_ok_range:
  "chains_ok s m \<Longrightarrow> i < size_n s \<Longrightarrow>
   chainID s ! i = -1 \<or> (0 \<le> chainID s ! i \<and> chainID s ! i < m)"
  by (simp add: chains_ok_def)

lemma chains_ok_unique:
  "chains_ok s m \<Longrightarrow> 0 \<le> k \<Longrightarrow> k < m \<Longrightarrow>
   \<exists>!i. i < size_n s \<and> chainID s ! i = k \<and> terminal s i"
  by (simp add: chains_ok_def)

lemma chains_ok_dens:
  "chains_ok s m \<Longrightarrow> i < size_n s \<Longrightarrow> terminal s i \<Longrightarrow> chainID s ! i \<noteq> -1 \<Longrightarrow>
   map_of (densest_in_chain s) (chainID s ! i) = Some (density s ! i)"
  by (simp add: chains_ok_def)

lemma chains_ok_keys:
  "chains_ok s m \<Longrightarrow> fst ` set (densest_in_chain s) = {k. 0 \<le> k \<and> k < m}"
  by (simp add: chains_ok_def)

lemma chains_ok_distinct: "chains_ok s m \<Longrightarrow> distinct (map fst (densest_in_chain s))"
  by (simp add: chains_ok_def)

lemma terminal_same_static: "same_static s s' \<Longrightarrow> terminal s' i = terminal s i"
  by (simp add: terminal_def same_static_def)

lemma chains_ok_relink:
  assumes ok: "chains_ok s m"
    and ss: "same_static s s'" and dic: "densest_in_chain s' = densest_in_chain s"
    and cid: "chainID s' = (chainID s)[j := r]"
    and j: "j < size_n s" and len: "length (chainID s) = size_n s"
    and nt: "\<not> terminal s j" and r: "0 \<le> r" "r < m"
  shows "chains_ok s' m"
proof (rule chains_okI)
  have n: "size_n s' = size_n s" and dens: "density s' = density s"
    using ss by (simp_all add: same_static_def)
  have tsame: "terminal s' i = terminal s i" for i
    using ss by (rule terminal_same_static)
  have other: "chainID s' ! i = chainID s ! i" if "i \<noteq> j" for i
    using that cid by simp
  have atj: "chainID s' ! j = r" using cid j len by simp
  show "chainID s' ! i = -1 \<or> (0 \<le> chainID s' ! i \<and> chainID s' ! i < m)"
    if "i < size_n s'" for i
  proof (cases "i = j")
    case True
    then show ?thesis using atj r by simp
  next
    case False
    then show ?thesis using chains_ok_range [OF ok, of i] that n other [of i] by simp
  qed
  have same: "(i < size_n s' \<and> chainID s' ! i = k \<and> terminal s' i) \<longleftrightarrow>
      (i < size_n s \<and> chainID s ! i = k \<and> terminal s i)" for i k
  proof (cases "i = j")
    case True
    then show ?thesis using nt tsame by simp
  next
    case False
    then show ?thesis using other [of i] n tsame by simp
  qed
  show "\<exists>!i. i < size_n s' \<and> chainID s' ! i = k \<and> terminal s' i" if "0 \<le> k" "k < m" for k
    unfolding same using chains_ok_unique [OF ok that] .
  show "map_of (densest_in_chain s') (chainID s' ! i) = Some (density s' ! i)"
    if i: "i < size_n s'" and t: "terminal s' i" and a: "chainID s' ! i \<noteq> -1" for i
  proof -
    have "i \<noteq> j" using t nt tsame by auto
    then have "chainID s' ! i = chainID s ! i" by (rule other)
    then show ?thesis
      using chains_ok_dens [OF ok, of i] i t a n tsame dens dic by simp
  qed
  show "fst ` set (densest_in_chain s') = {k. 0 \<le> k \<and> k < m}"
    using chains_ok_keys [OF ok] dic by simp
  show "distinct (map fst (densest_in_chain s'))"
    using chains_ok_distinct [OF ok] dic by simp
qed

lemma chains_ok_mint:
  assumes ok: "chains_ok s m"
    and ss: "same_static s s'"
    and dic: "densest_in_chain s' = AList.update m (density s ! j) (densest_in_chain s)"
    and cid: "chainID s' = (chainID s)[j := m]"
    and j: "j < size_n s" and len: "length (chainID s) = size_n s"
    and t: "terminal s j" and un: "chainID s ! j = -1" and m: "0 \<le> m"
  shows "chains_ok s' (m + 1)"
proof (rule chains_okI)
  have n: "size_n s' = size_n s" and dens: "density s' = density s"
    using ss by (simp_all add: same_static_def)
  have tsame: "terminal s' i = terminal s i" for i
    using ss by (rule terminal_same_static)
  have other: "chainID s' ! i = chainID s ! i" if "i \<noteq> j" for i
    using that cid by simp
  have atj: "chainID s' ! j = m" using cid j len by simp
  have old: "chainID s ! i = -1 \<or> (0 \<le> chainID s ! i \<and> chainID s ! i < m)"
    if "i < size_n s" for i
    using chains_ok_range [OF ok that] .
  show "chainID s' ! i = -1 \<or> (0 \<le> chainID s' ! i \<and> chainID s' ! i < m + 1)"
    if "i < size_n s'" for i
  proof (cases "i = j")
    case True
    then show ?thesis using atj m by simp
  next
    case False
    then show ?thesis using old [of i] that n other [of i] by auto
  qed
  show "\<exists>!i. i < size_n s' \<and> chainID s' ! i = k \<and> terminal s' i"
    if k: "0 \<le> k" "k < m + 1" for k
  proof (cases "k = m")
    case True
    have only: "i = j" if "i < size_n s'" "chainID s' ! i = k" for i
    proof (rule ccontr)
      assume ne: "i \<noteq> j"
      then have "chainID s ! i = m" using that(2) other [of i] True by simp
      then show False using old [of i] that(1) n m by auto
    qed
    show ?thesis
    proof (rule ex1I [of _ j])
      show "j < size_n s' \<and> chainID s' ! j = k \<and> terminal s' j"
        using j n atj t tsame True by simp
    qed (use only in blast)
  next
    case False
    have same: "(i < size_n s' \<and> chainID s' ! i = k \<and> terminal s' i) \<longleftrightarrow>
        (i < size_n s \<and> chainID s ! i = k \<and> terminal s i)" for i
    proof (cases "i = j")
      case True
      then show ?thesis using un atj False k by auto
    next
      case ne: False
      then show ?thesis using other [of i] n tsame by simp
    qed
    have "k < m" using k False by simp
    from chains_ok_unique [OF ok k(1) this] show ?thesis unfolding same .
  qed
  show "map_of (densest_in_chain s') (chainID s' ! i) = Some (density s' ! i)"
    if i: "i < size_n s'" and ti: "terminal s' i" and a: "chainID s' ! i \<noteq> -1" for i
  proof (cases "i = j")
    case True
    then show ?thesis using atj dic dens by (simp add: update_conv)
  next
    case False
    then have eq: "chainID s' ! i = chainID s ! i" by (rule other)
    then have ne: "chainID s ! i \<noteq> m" "chainID s ! i \<noteq> -1"
      using old [of i] i n a by auto
    have "map_of (densest_in_chain s) (chainID s ! i) = Some (density s ! i)"
      using chains_ok_dens [OF ok, of i] i ti ne(2) n tsame by simp
    then show ?thesis using ne(1) eq dens dic by (simp add: update_conv)
  qed
  show "fst ` set (densest_in_chain s') = {k. 0 \<le> k \<and> k < m + 1}"
    using chains_ok_keys [OF ok] m by (auto simp: dic dom_update)
  show "distinct (map fst (densest_in_chain s'))"
    using chains_ok_distinct [OF ok] by (simp add: dic distinct_update)
qed

lemma chains_ok_enter: "chains_ok (enter s p) m = chains_ok s m"
  by (simp add: chains_ok_def enter_def terminal_def)

lemma recurse_links_chains_ok:
  assumes res: "recurse_links d s p c = Inr y"
    and wf: "wf_arrays s" and rng: "0 \<le> p" "p < int (size_n s)"
    and ok: "chains_ok s c" and un: "chainID s ! nat p = -1" and c: "0 \<le> c"
  shows "\<exists>s' r. y = (s', r) \<and>
           ((0 \<le> r \<and> r < c \<and> chains_ok s' c) \<or> (r = c \<and> chains_ok s' (c + 1))) \<and>
           same_static s s' \<and> wf_arrays s'"
proof -
  let ?Pre = "\<lambda>s p. chains_ok s c \<and> chainID s ! nat p = -1"
  let ?Post = "\<lambda>(s :: RunChainHOP) (p :: int) s' r.
      (0 \<le> r \<and> r < c \<and> chains_ok s' c) \<or> (r = c \<and> chains_ok s' (c + 1))"
  show ?thesis
  proof (rule recurse_links_rule [where Pre = ?Pre and Post = ?Post, OF res wf rng])
    show "?Pre s p" using ok un by simp
  next
    fix s p
    assume wf: "wf_arrays s" and r0: "0 \<le> p" and r1: "p < int (size_n s)" and pre: "?Pre s p"
      and nc: "- 1 < chainID s ! nat (nn_of s p)" and ins: "is_inside s ! nat p"
    have nn: "0 \<le> nn_of s p" "nn_of s p < int (size_n s)"
      using nn_in_range [OF wf r0 r1] by auto
    have "nat (nn_of s p) < size_n s" using nn by simp
    from chains_ok_range [OF _ this, of c] pre nc
    have rng: "0 \<le> chainID s ! nat (nn_of s p)" "chainID s ! nat (nn_of s p) < c"
      by auto
    have "nn_of s p \<noteq> p" using pre nc by auto
    then have nt: "\<not> terminal s (nat p)"
      using ins r0 by (simp add: terminal_def nn_of_def)
    have "chains_ok (adopt_state s p) c"
    proof (rule chains_ok_relink [where j = "nat p" and s = s])
      show "chains_ok s c" using pre by simp
      show "same_static s (adopt_state s p)"
        by (simp add: same_static_def adopt_state_def enter_def)
      show "densest_in_chain (adopt_state s p) = densest_in_chain s"
        by (simp add: adopt_state_def enter_def)
      show "chainID (adopt_state s p) = (chainID s)[nat p := chainID s ! nat (nn_of s p)]"
        by (simp add: adopt_state_def enter_def)
      show "nat p < size_n s" using r0 r1 by simp
      show "length (chainID s) = size_n s" using wf by (simp add: wf_arrays_def)
    qed (use nt rng in simp_all)
    then show "?Post s p (adopt_state s p) (chainID s ! nat (nn_of s p))"
      using rng by simp
  next
    fix s p
    assume wf: "wf_arrays s" and r0: "0 \<le> p" and r1: "p < int (size_n s)" and pre: "?Pre s p"
      and t: "nn_of s p = p \<or> \<not> is_inside s ! nat p"
    have tm: "terminal s (nat p)"
      using t r0 by (auto simp: terminal_def nn_of_def)
    have "chains_ok (mint_state s p c) (c + 1)"
    proof (rule chains_ok_mint [where j = "nat p" and s = s])
      show "chains_ok s c" using pre by simp
      show "same_static s (mint_state s p c)"
        by (simp add: same_static_def mint_state_def enter_def Let_def)
      show "densest_in_chain (mint_state s p c) =
          AList.update c (density s ! nat p) (densest_in_chain s)"
        by (simp add: mint_state_def enter_def Let_def)
      show "chainID (mint_state s p c) = (chainID s)[nat p := c]"
        by (simp add: mint_state_def enter_def Let_def)
      show "nat p < size_n s" using r0 r1 by simp
      show "length (chainID s) = size_n s" using wf by (simp add: wf_arrays_def)
    qed (use tm pre c in simp_all)
    then show "?Post s p (mint_state s p c) c" by simp
  next
    fix s p
    assume wf: "wf_arrays s" and r0: "0 \<le> p" and r1: "p < int (size_n s)" and pre: "?Pre s p"
      and nc: "\<not> - 1 < chainID s ! nat (nn_of s p)"
    have nn: "0 \<le> nn_of s p" "nn_of s p < int (size_n s)"
      using nn_in_range [OF wf r0 r1] by auto
    have "nat (nn_of s p) < size_n s" using nn by simp
    from chains_ok_range [OF _ this, of c] pre nc
    have "chainID s ! nat (nn_of s p) = -1"
      by auto
    then show "?Pre (enter s p) (nn_of s p)"
      using pre by (simp add: chains_ok_enter) (simp add: enter_def)
  next
    fix s p s' r
    assume wf: "wf_arrays s" and r0: "0 \<le> p" and r1: "p < int (size_n s)"
      and ins: "is_inside s ! nat p" and ne: "nn_of s p \<noteq> p"
      and post: "?Post (enter s p) (nn_of s p) s' r"
      and ss: "same_static s s'" and wf': "wf_arrays s'"
    have nt: "\<not> terminal s' (nat p)"
      using ins ne r0 ss by (simp add: terminal_def nn_of_def same_static_def)
    have j: "nat p < size_n s'" using r0 r1 ss by (simp add: same_static_def)
    have len: "length (chainID s') = size_n s'" using wf' by (simp add: wf_arrays_def)
    have relink: "chains_ok (s'\<lparr>chainID := (chainID s')[nat p := r]\<rparr>) m"
      if "chains_ok s' m" "0 \<le> r" "r < m" for m
    proof (rule chains_ok_relink [where j = "nat p" and s = s' and r = r])
      show "same_static s' (s'\<lparr>chainID := (chainID s')[nat p := r]\<rparr>)"
        by (simp add: same_static_def)
    qed (use that nt j len in simp_all)
    let ?goal = "?Post s p (s'\<lparr>chainID := (chainID s')[nat p := r]\<rparr>) r"
    from post consider (old) "0 \<le> r" "r < c" "chains_ok s' c"
      | (new) "r = c" "chains_ok s' (c + 1)"
      by blast
    then show ?goal
    proof cases
      case old
      have "chains_ok (s'\<lparr>chainID := (chainID s')[nat p := r]\<rparr>) c"
        using relink [OF old(3) old(1) old(2)] .
      then show ?goal using old by simp
    next
      case new
      have "chains_ok (s'\<lparr>chainID := (chainID s')[nat p := r]\<rparr>) (c + 1)"
        using relink [OF new(2)] c new(1) by simp
      then show ?goal using new by simp
    qed
  qed
qed

lemma build_chains_chains_ok:
  assumes res: "build_chains d s = Inr (s', c)"
    and wf: "wf_arrays s" and un: "unassigned s"
  shows "chains_ok s' c \<and> 0 \<le> c \<and> same_static s s' \<and> wf_arrays s'"
proof -
  let ?s0 = "s\<lparr>densest_in_chain := []\<rparr>"
  let ?I = "\<lambda>s m. chains_ok s m \<and> 0 \<le> m"
  have res0: "build_chains_loop d [0..<size_n ?s0] ?s0 0 = Inr (s', c)"
    using res by (simp add: build_chains_def)
  have wf0: "wf_arrays ?s0" using wf by (simp add: wf_arrays_def)
  have len: "length (chainID s) = size_n s" using wf by (simp add: wf_arrays_def)
  have all: "chainID s ! i = -1" if "i < size_n s" for i
    using un len that by (simp add: unassigned_def list_all_length)
  have "chains_ok ?s0 0"
    by (rule chains_okI) (simp_all add: all)
  then have I0: "?I ?s0 0" by simp
  have "?I s' c \<and> same_static ?s0 s' \<and> wf_arrays s'"
  proof (rule build_chains_loop_rule [where I = ?I, OF res0 wf0 _ I0])
    show "\<forall>i \<in> set [0..<size_n ?s0]. i < size_n ?s0" by simp
  next
    fix s m i s' r
    assume wf: "wf_arrays s" and i: "i < size_n s" and I: "?I s m"
      and nc: "\<not> - 1 < chainID s ! i"
      and rl: "recurse_links d s (int i) m = Inr (s', r)"
    have un: "chainID s ! nat (int i) = -1"
      using chains_ok_range [of s m i] I i nc by auto
    from recurse_links_chains_ok [OF rl wf _ _ _ un] i I
    have "(0 \<le> r \<and> r < m \<and> chains_ok s' m) \<or> (r = m \<and> chains_ok s' (m + 1))"
      by auto
    then show "?I s' (if r = m then m + 1 else m)" using I by auto
  qed
  then show ?thesis by (simp add: same_static_def)
qed

text \<open>
  Claim C7. When \<open>_build_chains\<close> returns \<open>chain_count\<close> on an object with well-formed
  arrays and no chain id assigned, at whatever recursion depth it runs: the chain ids in
  use are 0 .. chain_count - 1; every
  one of them has exactly one member that is its own densest neighbour or lies outside
  the owned region (\<open>terminal\<close>); \<open>densest_in_chain\<close> holds that member's density under
  the chain's id; and the keys of \<open>densest_in_chain\<close> are exactly the chain ids, each once.
\<close>

theorem C7_one_densest_member_per_chain:
  assumes wf: "wf_arrays s" and un: "unassigned s"
    and res: "build_chains depth s = Inr (s', chain_count)"
  shows "0 \<le> chain_count \<and>
    (\<forall>i < size_n s'. chainID s' ! i = -1 \<or>
        (0 \<le> chainID s' ! i \<and> chainID s' ! i < chain_count)) \<and>
    (\<forall>k. 0 \<le> k \<and> k < chain_count \<longrightarrow>
        (\<exists>!i. i < size_n s' \<and> chainID s' ! i = k \<and> terminal s' i)) \<and>
    (\<forall>i < size_n s'. terminal s' i \<longrightarrow> chainID s' ! i \<noteq> -1 \<longrightarrow>
        map_of (densest_in_chain s') (chainID s' ! i) = Some (density s' ! i)) \<and>
    fst ` set (densest_in_chain s') = {k. 0 \<le> k \<and> k < chain_count} \<and>
    distinct (map fst (densest_in_chain s'))"
  using build_chains_chains_ok [OF res wf un] unfolding chains_ok_def by simp

theorem C7_one_densest_member_per_chain_witness:
  "wf_arrays example_slope \<and> unassigned example_slope \<and>
   build_chains 1000 example_slope = Inr (example_slope_chains, 1) \<and>
   (\<exists>!i. i < size_n example_slope_chains \<and> chainID example_slope_chains ! i = 0 \<and>
      terminal example_slope_chains i) \<and>
   terminal example_slope_chains 2 \<and> chainID example_slope_chains ! 2 = 0 \<and>
   map_of (densest_in_chain example_slope_chains) 0 = Some 6"
proof -
  have wf: "wf_arrays example_slope"
    by (simp add: wf_arrays_def example_slope_def init_fields_def)
  have un: "unassigned example_slope"
    by (simp add: unassigned_def example_slope_def init_fields_def)
  from C7_one_densest_member_per_chain [OF wf un example_slope_build]
  have "\<exists>!i. i < size_n example_slope_chains \<and> chainID example_slope_chains ! i = 0 \<and>
      terminal example_slope_chains i"
    by simp
  moreover have "terminal example_slope_chains 2" "chainID example_slope_chains ! 2 = 0"
    "map_of (densest_in_chain example_slope_chains) 0 = Some 6"
    by (simp_all add: terminal_def example_slope_chains_def example_slope_def init_fields_def)
  ultimately show ?thesis using wf un example_slope_build by simp
qed

subsection \<open>Termination of the chain following\<close>



















subsection \<open>Compaction when no chain is unassigned\<close>

lemma build_groups_one_peak: "build_groups example_one_peak 1 =
   Some (Inr (example_one_peak\<lparr>reverse_map := [(0, 0)]\<rparr>, 0))"
  by (simp add: build_groups_def example_one_peak_def init_fields_def fringe_while.simps
      compaction_def upt_rec)

lemma build_groups_two_peaks: "build_groups example_two_peaks 2 =
   Some (Inr (example_two_peaks\<lparr>reverse_map := [(0, 0), (1, 0)]\<rparr>, 1))"
  by (simp add: build_groups_def example_two_peaks_def init_fields_def fringe_while.simps
      compaction_def upt_rec relabel_def enumerate_eq_zip)

text \<open>
  Claim C4. The spec has the compaction return the number of distinct group ids other
  than -1 and map them onto 0 .. group_count - 1, also when no chain is left on -1. The
  code skips the first entry of the sorted ids, taking it to be -1. With one peak chain
  the map ends as 0 -> 0 and the count returned is 0, not 1; with two unlinked peak
  chains the two groups 0 and 1 are both relabelled 0 and the count is 1, not 2.
\<close>

theorem C4_compaction_drops_smallest_group:
  "build_groups example_one_peak 1 =
     Some (Inr (example_one_peak\<lparr>reverse_map := [(0, 0)]\<rparr>, 0)) \<and>
   build_groups example_two_peaks 2 =
     Some (Inr (example_two_peaks\<lparr>reverse_map := [(0, 0), (1, 0)]\<rparr>, 1)) \<and>
   compaction [(0, 0), (1, 1)] = ([(0, 0), (1, 0)], 1)"
  using build_groups_one_peak build_groups_two_peaks
  by (simp add: compaction_def relabel_def enumerate_eq_zip)

subsection \<open>Running the Group Assembler again\<close>

lemma map_of_relabel:
  "map_of (relabel a b rm) k = map_option (\<lambda>g. if g = a then b else g) (map_of rm k)"
  by (simp add: relabel_def map_of_map)

lemma keys_relabel: "map fst (relabel a b rm) = map fst rm"
  by (induction rm) (auto simp: relabel_def)

lemma keys_update_present: "k \<in> fst ` set al \<Longrightarrow> map fst (AList.update k v al) = map fst al"
  by (simp add: update_keys)

lemma alist_eqI:
  "map fst xs = map fst ys \<Longrightarrow> distinct (map fst xs) \<Longrightarrow>
   (\<And>k v. map_of xs k = Some v \<Longrightarrow> map_of ys k = Some v) \<Longrightarrow> xs = ys"
proof (induction xs arbitrary: ys)
  case Nil
  then show ?case by simp
next
  case (Cons x xs)
  obtain y ys' where ys: "ys = y # ys'" using Cons.prems(1) by (cases ys) auto
  obtain k v where x: "x = (k, v)" by (cases x)
  obtain k' v' where y: "y = (k', v')" by (cases y)
  have kk: "k' = k" and keys: "map fst xs = map fst ys'"
    using Cons.prems(1) ys x y by auto
  have "map_of ys k = Some v" using Cons.prems(3) [of k v] x by simp
  then have vv: "v' = v" using ys y kk by simp
  have notin: "k \<notin> fst ` set xs" and dist: "distinct (map fst xs)"
    using Cons.prems(2) x by auto
  have "xs = ys'"
  proof (rule Cons.IH [OF keys dist])
    fix j w assume jw: "map_of xs j = Some w"
    then have "j \<in> fst ` set xs" by (metis map_of_eq_None_iff option.distinct(1))
    then have "j \<noteq> k" using notin by auto
    then show "map_of ys' j = Some w"
      using Cons.prems(3) [of j w] jw x ys y kk by simp
  qed
  then show ?case using ys x y kk vv by simp
qed

lemma simI:
  assumes "map fst rm1 = map fst rm2"
    and "\<And>k v. k \<in> F \<Longrightarrow> map_of rm1 k = Some v \<Longrightarrow> 0 \<le> v \<and> map_of rm2 k = Some v"
    and "\<And>k v. k \<notin> F \<Longrightarrow> map_of rm1 k = Some v \<Longrightarrow> v = -1"
    and "\<And>k. k \<in> N \<Longrightarrow> k \<notin> F \<Longrightarrow> map_of rm2 k = Some (-1)"
  shows "sim N F rm1 rm2"
  unfolding sim_def using assms by blast

lemma sim_keys: "sim N F rm1 rm2 \<Longrightarrow> map fst rm1 = map fst rm2"
  by (simp add: sim_def)

lemma sim_fresh: "sim N F rm1 rm2 \<Longrightarrow> k \<in> F \<Longrightarrow> map_of rm1 k = Some v \<Longrightarrow>
   0 \<le> v \<and> map_of rm2 k = Some v"
  unfolding sim_def by blast

lemma sim_stale: "sim N F rm1 rm2 \<Longrightarrow> k \<notin> F \<Longrightarrow> map_of rm1 k = Some v \<Longrightarrow> v = -1"
  unfolding sim_def by blast

lemma sim_unset: "sim N F rm1 rm2 \<Longrightarrow> k \<in> N \<Longrightarrow> k \<notin> F \<Longrightarrow> map_of rm2 k = Some (-1)"
  unfolding sim_def by blast

lemma sim_relabel:
  assumes s: "sim N F rm1 rm2" and a: "0 \<le> a" and b: "0 \<le> b"
  shows "sim N F (relabel a b rm1) (relabel a b rm2)"
proof (rule simI)
  show "map fst (relabel a b rm1) = map fst (relabel a b rm2)"
    using sim_keys [OF s] by (simp add: keys_relabel)
next
  fix k v assume k: "k \<in> F" and v: "map_of (relabel a b rm1) k = Some v"
  then obtain v0 where v0: "map_of rm1 k = Some v0" "v = (if v0 = a then b else v0)"
    by (auto simp: map_of_relabel)
  from sim_fresh [OF s k v0(1)] v0(2) b
  show "0 \<le> v \<and> map_of (relabel a b rm2) k = Some v"
    by (auto simp: map_of_relabel)
next
  fix k v assume k: "k \<notin> F" and v: "map_of (relabel a b rm1) k = Some v"
  then obtain v0 where v0: "map_of rm1 k = Some v0" "v = (if v0 = a then b else v0)"
    by (auto simp: map_of_relabel)
  from sim_stale [OF s k v0(1)] v0(2) a show "v = -1" by auto
next
  fix k assume "k \<in> N" "k \<notin> F"
  from sim_unset [OF s this] a show "map_of (relabel a b rm2) k = Some (-1)"
    by (auto simp: map_of_relabel)
qed

lemma sim_update:
  assumes s: "sim N F rm1 rm2" and l: "l \<in> fst ` set rm1" and g: "0 \<le> g"
  shows "sim N (insert l F) (AList.update l g rm1) (AList.update l g rm2)"
proof (rule simI)
  have "l \<in> fst ` set rm2" using l sim_keys [OF s] by (metis set_map)
  then show "map fst (AList.update l g rm1) = map fst (AList.update l g rm2)"
    using l sim_keys [OF s] by (simp add: keys_update_present)
next
  fix k v assume k: "k \<in> insert l F" and v: "map_of (AList.update l g rm1) k = Some v"
  show "0 \<le> v \<and> map_of (AList.update l g rm2) k = Some v"
  proof (cases "k = l")
    case True
    then show ?thesis using v g by (simp add: update_conv')
  next
    case False
    then have "k \<in> F" "map_of rm1 k = Some v" using k v by (simp_all add: update_conv')
    from sim_fresh [OF s this] False show ?thesis by (simp add: update_conv')
  qed
next
  fix k v assume k: "k \<notin> insert l F" and v: "map_of (AList.update l g rm1) k = Some v"
  then have "k \<notin> F" "map_of rm1 k = Some v" by (simp_all add: update_conv')
  from sim_stale [OF s this] show "v = -1" .
next
  fix k assume "k \<in> N" "k \<notin> insert l F"
  then have "k \<in> N" "k \<notin> F" "k \<noteq> l" by auto
  from sim_unset [OF s this(1,2)] this(3)
  show "map_of (AList.update l g rm2) k = Some (-1)" by (simp add: update_conv')
qed

lemma fresh_update:
  "- 1 < d \<Longrightarrow> fresh dic peak (AList.update l d db) = insert l (fresh dic peak db)"
  by (auto simp: fresh_def update_conv')

lemma db_ok_update: "db_ok db \<Longrightarrow> - 1 \<le> d \<Longrightarrow> db_ok (AList.update l d db)"
  by (auto simp: db_ok_def update_conv')

lemma link_step_fringe:
  "map_of dic h = Some mh \<Longrightarrow> map_of dic l = Some ml \<Longrightarrow> mh < peak \<Longrightarrow> ml < peak \<Longrightarrow>
   link_step dic peak saddle h l dens (rm, db, g) = Inr (rm, db, g @ [(h, l, dens)])"
  by (simp add: link_step_def)

lemma link_step_saddle:
  "map_of dic h = Some mh \<Longrightarrow> map_of dic l = Some ml \<Longrightarrow> peak \<le> mh \<Longrightarrow> peak \<le> ml \<Longrightarrow>
   dens < saddle \<Longrightarrow> link_step dic peak saddle h l dens (rm, db, g) = Inr (rm, db, g)"
  by (simp add: link_step_def)

lemma link_step_merge:
  "map_of dic h = Some mh \<Longrightarrow> map_of dic l = Some ml \<Longrightarrow> peak \<le> mh \<Longrightarrow> peak \<le> ml \<Longrightarrow>
   \<not> dens < saddle \<Longrightarrow>
   link_step dic peak saddle h l dens (rm, db, g) =
     (case map_of rm h of None \<Rightarrow> Inl KeyError | Some group_high \<Rightarrow>
      case map_of rm l of None \<Rightarrow> Inl KeyError | Some group_low \<Rightarrow>
        Inr (relabel group_low group_high rm, db, g))"
  by (simp add: link_step_def)

lemma link_step_mixed:
  "map_of dic h = Some mh \<Longrightarrow> map_of dic l = Some ml \<Longrightarrow> peak \<le> mh \<Longrightarrow> ml < peak \<Longrightarrow>
   link_step dic peak saddle h l dens (rm, db, g) =
     (case map_of rm h of None \<Rightarrow> Inl KeyError | Some group_high \<Rightarrow>
      case map_of db l of None \<Rightarrow> Inl KeyError | Some b \<Rightarrow>
        if dens > b
        then Inr (AList.update l group_high rm, AList.update l dens db, g)
        else Inr (rm, db, g))"
  by (simp add: link_step_def)

lemma gkeys_same_keys: "gkeys g rm \<Longrightarrow> map fst rm' = map fst rm \<Longrightarrow> gkeys g rm'"
proof -
  assume g: "gkeys g rm" and k: "map fst rm' = map fst rm"
  have "fst ` set rm' = fst ` set rm" using k by (metis set_map)
  then show ?thesis using g by (simp add: gkeys_def)
qed

lemma link_step_sim:
  assumes step: "link_step dic peak saddle h l dens (rm1, db, g) = Inr (rm1', db', g')"
    and s: "sim N (fresh dic peak db) rm1 rm2" and ok: "db_ok db" and gk: "gkeys g rm1"
    and lk: "l \<in> fst ` set rm1"
    and ord: "\<And>mh ml. map_of dic h = Some mh \<Longrightarrow> map_of dic l = Some ml \<Longrightarrow> ml \<le> mh"
  shows "\<exists>rm2'. link_step dic peak saddle h l dens (rm2, db, g) = Inr (rm2', db', g') \<and>
           sim N (fresh dic peak db') rm1' rm2' \<and> db_ok db' \<and> gkeys g' rm1' \<and>
           map fst rm1' = map fst rm1"
proof -
  from step obtain mh where mh: "map_of dic h = Some mh"
    by (cases "map_of dic h") (simp_all add: link_step_def)
  from step mh obtain ml where ml: "map_of dic l = Some ml"
    by (cases "map_of dic l") (simp_all add: link_step_def)
  have le: "ml \<le> mh" using ord [OF mh ml] .
  consider (fringe) "mh < peak" "ml < peak"
    | (saddle) "peak \<le> mh" "peak \<le> ml" "dens < saddle"
    | (merge) "peak \<le> mh" "peak \<le> ml" "\<not> dens < saddle"
    | (mixed) "peak \<le> mh" "ml < peak"
    using le by linarith
  then show ?thesis
  proof cases
    case fringe
    note ev = link_step_fringe [OF mh ml fringe]
    have res: "rm1' = rm1" "db' = db" "g' = g @ [(h, l, dens)]"
      using step by (simp_all add: ev)
    have "gkeys (g @ [(h, l, dens)]) rm1" using gk lk by (simp add: gkeys_def)
    then show ?thesis using s ok by (intro exI [of _ rm2]) (simp add: res ev)
  next
    case saddle
    note ev = link_step_saddle [OF mh ml saddle]
    have res: "rm1' = rm1" "db' = db" "g' = g"
      using step by (simp_all add: ev)
    show ?thesis using s ok gk by (intro exI [of _ rm2]) (simp add: res ev)
  next
    case merge
    note ev = link_step_merge [OF mh ml merge]
    from step obtain gh where gh: "map_of rm1 h = Some gh"
      by (cases "map_of rm1 h") (simp_all add: ev)
    from step gh obtain gl where gl: "map_of rm1 l = Some gl"
      by (cases "map_of rm1 l") (simp_all add: ev)
    have res: "rm1' = relabel gl gh rm1" "db' = db" "g' = g"
      using step gh gl by (simp_all add: ev)
    have hF: "h \<in> fresh dic peak db" and lF: "l \<in> fresh dic peak db"
      using mh ml merge by (simp_all add: fresh_def is_peak_def)
    from sim_fresh [OF s hF gh] have gh2: "0 \<le> gh" "map_of rm2 h = Some gh" by simp_all
    from sim_fresh [OF s lF gl] have gl2: "0 \<le> gl" "map_of rm2 l = Some gl" by simp_all
    have "sim N (fresh dic peak db) (relabel gl gh rm1) (relabel gl gh rm2)"
      using sim_relabel [OF s gl2(1) gh2(1)] .
    moreover have "gkeys g (relabel gl gh rm1)"
      using gkeys_same_keys [OF gk keys_relabel] .
    ultimately show ?thesis
      using ok gh2 gl2
      by (intro exI [of _ "relabel gl gh rm2"]) (simp add: res ev keys_relabel)
  next
    case mixed
    note ev = link_step_mixed [OF mh ml mixed]
    from step obtain gh where gh: "map_of rm1 h = Some gh"
      by (cases "map_of rm1 h") (simp_all add: ev)
    from step gh obtain b where b: "map_of db l = Some b"
      by (cases "map_of db l") (simp_all add: ev)
    have hF: "h \<in> fresh dic peak db"
      using mh mixed by (simp add: fresh_def is_peak_def)
    from sim_fresh [OF s hF gh] have gh2: "0 \<le> gh" "map_of rm2 h = Some gh" by simp_all
    have b1: "- 1 \<le> b" using ok b unfolding db_ok_def by blast
    show ?thesis
    proof (cases "dens > b")
      case False
      then have res: "rm1' = rm1" "db' = db" "g' = g"
        using step gh b by (simp_all add: ev)
      show ?thesis using s ok gk False gh2 b by (intro exI [of _ rm2]) (simp add: res ev)
    next
      case True
      then have res: "rm1' = AList.update l gh rm1" "db' = AList.update l dens db" "g' = g"
        using step gh b by (simp_all add: ev)
      have d: "- 1 < dens" using True b1 by simp
      have "sim N (fresh dic peak (AList.update l dens db))
          (AList.update l gh rm1) (AList.update l gh rm2)"
        using sim_update [OF s lk gh2(1)] by (simp add: fresh_update [OF d])
      moreover have "db_ok (AList.update l dens db)"
        using db_ok_update [OF ok] d by simp
      moreover have keys: "map fst (AList.update l gh rm1) = map fst rm1"
        using lk by (simp add: keys_update_present)
      moreover have "gkeys g (AList.update l gh rm1)"
        using gkeys_same_keys [OF gk keys] .
      ultimately show ?thesis
        using True gh2 b by (intro exI [of _ "AList.update l gh rm2"]) (simp add: res ev)
    qed
  qed
qed

lemma keys_set: "map fst rm' = map fst rm \<Longrightarrow> fst ` set rm' = fst ` set rm"
  by (metis set_map)

lemma inner_links_sim:
  assumes "inner_links dic peak saddle h inner (rm1, db, g) = Inr (rm1', db', g')"
    and "sim N (fresh dic peak db) rm1 rm2" and "db_ok db" and "gkeys g rm1"
    and "list_all (\<lambda>(l, d). link_ok dic (fst ` set rm1) h l) inner"
  shows "\<exists>rm2'. inner_links dic peak saddle h inner (rm2, db, g) = Inr (rm2', db', g') \<and>
           sim N (fresh dic peak db') rm1' rm2' \<and> db_ok db' \<and> gkeys g' rm1' \<and>
           map fst rm1' = map fst rm1"
  using assms
proof (induction inner arbitrary: rm1 rm2 db g)
  case Nil
  then show ?case by auto
next
  case (Cons x inner)
  obtain l dens where x: "x = (l, dens)" by (cases x)
  from Cons.prems(1) obtain st where st: "link_step dic peak saddle h l dens (rm1, db, g) = Inr st"
    and rest: "inner_links dic peak saddle h inner st = Inr (rm1', db', g')"
    by (cases "link_step dic peak saddle h l dens (rm1, db, g)") (simp_all add: x)
  obtain rm1a dba ga where sta: "st = (rm1a, dba, ga)" by (cases st)
  have lok: "link_ok dic (fst ` set rm1) h l"
    and iok: "list_all (\<lambda>(l, d). link_ok dic (fst ` set rm1) h l) inner"
    using Cons.prems(5) by (simp_all add: x)
  have lk: "l \<in> fst ` set rm1" using lok by (simp add: link_ok_def)
  have ord: "ml \<le> mh" if "map_of dic h = Some mh" "map_of dic l = Some ml" for mh ml
    using lok that by (simp add: link_ok_def)
  from link_step_sim [OF st [unfolded sta] Cons.prems(2,3,4) lk ord]
  obtain rm2a where a: "link_step dic peak saddle h l dens (rm2, db, g) = Inr (rm2a, dba, ga)"
    "sim N (fresh dic peak dba) rm1a rm2a" "db_ok dba" "gkeys ga rm1a"
    "map fst rm1a = map fst rm1"
    by blast
  have iok': "list_all (\<lambda>(l, d). link_ok dic (fst ` set rm1a) h l) inner"
    using iok keys_set [OF a(5)] by simp
  from Cons.IH [OF rest [unfolded sta] a(2,3,4) iok']
  obtain rm2' where b: "inner_links dic peak saddle h inner (rm2a, dba, ga) = Inr (rm2', db', g')"
    "sim N (fresh dic peak db') rm1' rm2'" "db_ok db'" "gkeys g' rm1'"
    "map fst rm1' = map fst rm1a"
    by blast
  show ?case
    using a(1,5) b by (intro exI [of _ rm2']) (simp add: x)
qed

lemma outer_links_sim:
  assumes "outer_links dic peak saddle links (rm1, db, g) = Inr (rm1', db', g')"
    and "sim N (fresh dic peak db) rm1 rm2" and "db_ok db" and "gkeys g rm1"
    and "links_ok dic (fst ` set rm1) links"
  shows "\<exists>rm2'. outer_links dic peak saddle links (rm2, db, g) = Inr (rm2', db', g') \<and>
           sim N (fresh dic peak db') rm1' rm2' \<and> db_ok db' \<and> gkeys g' rm1' \<and>
           map fst rm1' = map fst rm1"
  using assms
proof (induction links arbitrary: rm1 rm2 db g)
  case Nil
  then show ?case by auto
next
  case (Cons x links)
  obtain h inner where x: "x = (h, inner)" by (cases x)
  from Cons.prems(1) obtain st where st: "inner_links dic peak saddle h inner (rm1, db, g) = Inr st"
    and rest: "outer_links dic peak saddle links st = Inr (rm1', db', g')"
    by (cases "inner_links dic peak saddle h inner (rm1, db, g)") (simp_all add: x)
  obtain rm1a dba ga where sta: "st = (rm1a, dba, ga)" by (cases st)
  have iok: "list_all (\<lambda>(l, d). link_ok dic (fst ` set rm1) h l) inner"
    and rok: "links_ok dic (fst ` set rm1) links"
    using Cons.prems(5) by (simp_all add: x links_ok_def)
  from inner_links_sim [OF st [unfolded sta] Cons.prems(2,3,4) iok]
  obtain rm2a where a: "inner_links dic peak saddle h inner (rm2, db, g) = Inr (rm2a, dba, ga)"
    "sim N (fresh dic peak dba) rm1a rm2a" "db_ok dba" "gkeys ga rm1a"
    "map fst rm1a = map fst rm1"
    by blast
  have rok': "links_ok dic (fst ` set rm1a) links"
    using rok keys_set [OF a(5)] by simp
  from Cons.IH [OF rest [unfolded sta] a(2,3,4) rok']
  obtain rm2' where b: "outer_links dic peak saddle links (rm2a, dba, ga) = Inr (rm2', db', g')"
    "sim N (fresh dic peak db') rm1' rm2'" "db_ok db'" "gkeys g' rm1'"
    "map fst rm1' = map fst rm1a"
    by blast
  show ?case
    using a(1,5) b by (intro exI [of _ rm2']) (simp add: x)
qed

lemma fringe_pass_sim:
  assumes "fringe_pass g (rm1, db, ch) = Inr (rm1', db', ch')"
    and "sim N (fresh dic peak db) rm1 rm2" and "db_ok db" and "gkeys g rm1"
  shows "\<exists>rm2'. fringe_pass g (rm2, db, ch) = Inr (rm2', db', ch') \<and>
           sim N (fresh dic peak db') rm1' rm2' \<and> db_ok db' \<and>
           map fst rm1' = map fst rm1"
  using assms
proof (induction g arbitrary: rm1 rm2 db ch)
  case Nil
  then show ?case by auto
next
  case (Cons x g)
  obtain h l dens where x: "x = (h, l, dens)" by (cases x)
  note run = Cons.prems(1) [unfolded x]
  have lk: "l \<in> fst ` set rm1" and gk: "gkeys g rm1"
    using Cons.prems(4) by (simp_all add: x gkeys_def)
  from run obtain bl where bl: "map_of db l = Some bl"
    by (cases "map_of db l") simp_all
  have skip: ?case
    if rest: "fringe_pass g (rm1, db, ch) = Inr (rm1', db', ch')"
      and same: "\<And>rm. fringe_pass ((h, l, dens) # g) (rm, db, ch) = fringe_pass g (rm, db, ch)"
  proof -
    from Cons.IH [OF rest Cons.prems(2,3) gk]
    show ?thesis unfolding x same .
  qed
  show ?case
  proof (cases "dens > bl")
    case False
    show ?thesis
      by (rule skip) (use run bl False in simp_all)
  next
    case True
    from run bl True obtain bh where bh: "map_of db h = Some bh"
      by (cases "map_of db h") simp_all
    show ?thesis
    proof (cases "bh > bl")
      case False
      show ?thesis
        by (rule skip) (use run bl True bh False in simp_all)
    next
      case up: True
      from run bl True bh up obtain gh where gh: "map_of rm1 h = Some gh"
        by (cases "map_of rm1 h") simp_all
      let ?d = "if dens < bh then dens else bh"
      have rest: "fringe_pass g (AList.update l gh rm1, AList.update l ?d db, ch + 1) =
          Inr (rm1', db', ch')"
        using run bl True bh up gh by simp
      have b1: "- 1 \<le> bl" using Cons.prems(3) bl unfolding db_ok_def by blast
      have d: "- 1 < ?d" using True up b1 by simp
      have hF: "h \<in> fresh dic peak db"
        using bh up b1 by (simp add: fresh_def)
      from sim_fresh [OF Cons.prems(2) hF gh]
      have gh2: "0 \<le> gh" "map_of rm2 h = Some gh" by simp_all
      have s': "sim N (fresh dic peak (AList.update l ?d db))
          (AList.update l gh rm1) (AList.update l gh rm2)"
        using sim_update [OF Cons.prems(2) lk gh2(1)] by (simp only: fresh_update [OF d])
      have ok': "db_ok (AList.update l ?d db)"
        using db_ok_update [OF Cons.prems(3)] d by simp
      have keys: "map fst (AList.update l gh rm1) = map fst rm1"
        using lk by (simp add: keys_update_present)
      have gk': "gkeys g (AList.update l gh rm1)"
        using gkeys_same_keys [OF gk keys] .
      from Cons.IH [OF rest s' ok' gk']
      obtain rm2' where b:
        "fringe_pass g (AList.update l gh rm2, AList.update l ?d db, ch + 1) =
           Inr (rm2', db', ch')"
        "sim N (fresh dic peak db') rm1' rm2'" "db_ok db'"
        "map fst rm1' = map fst (AList.update l gh rm1)"
        by blast
      have "fringe_pass ((h, l, dens) # g) (rm2, db, ch) = Inr (rm2', db', ch')"
        using b(1) bl True bh up gh2(2) by simp
      then show ?thesis
        using b(2,3,4) keys by (intro exI [of _ rm2']) (simp add: x)
    qed
  qed
qed

lemmas fringe_while_partial_induct =
  fringe_while.raw_induct [rotated 1, consumes 1, case_names step]

lemma fringe_while_sim:
  assumes "fringe_while g ch rm1 db = Some y"
  shows "\<forall>rm1' db' rm2. y = Inr (rm1', db') \<longrightarrow>
           sim N (fresh dic peak db) rm1 rm2 \<longrightarrow> db_ok db \<longrightarrow> gkeys g rm1 \<longrightarrow>
           (\<exists>rm2'. fringe_while g ch rm2 db = Some (Inr (rm2', db')) \<and>
              sim N (fresh dic peak db') rm1' rm2' \<and> map fst rm1' = map fst rm1)"
  using assms
proof (induction g ch rm1 db y rule: fringe_while_partial_induct)
  case (step f g ch rm1 db y)
  show ?case
  proof (intro allI impI)
    fix rm1' db' rm2
    assume y: "y = Inr (rm1', db')"
      and s: "sim N (fresh dic peak db) rm1 rm2" and ok: "db_ok db" and gk: "gkeys g rm1"
    show "\<exists>rm2'. fringe_while g ch rm2 db = Some (Inr (rm2', db')) \<and>
              sim N (fresh dic peak db') rm1' rm2' \<and> map fst rm1' = map fst rm1"
    proof (cases "ch = 0")
      case True
      then have "rm1' = rm1" "db' = db" using step.hyps y by simp_all
      then show ?thesis
        using True s by (intro exI [of _ rm2]) (simp add: fringe_while.simps)
    next
      case False
      from step.hyps False y obtain st where st: "fringe_pass g (rm1, db, 0) = Inr st"
        by (cases "fringe_pass g (rm1, db, 0)") simp_all
      obtain rm1a dba cha where sta: "st = (rm1a, dba, cha)" by (cases st)
      have next1: "f g cha rm1a dba = Some y"
        using step.hyps False st sta by simp
      from fringe_pass_sim [OF st [unfolded sta] s ok gk]
      obtain rm2a where a: "fringe_pass g (rm2, db, 0) = Inr (rm2a, dba, cha)"
        "sim N (fresh dic peak dba) rm1a rm2a" "db_ok dba" "map fst rm1a = map fst rm1"
        by blast
      have gk': "gkeys g rm1a" using gkeys_same_keys [OF gk a(4)] .
      from step.IH [OF next1] y a(2,3) gk'
      obtain rm2' where b: "fringe_while g cha rm2a dba = Some (Inr (rm2', db'))"
        "sim N (fresh dic peak db') rm1' rm2'" "map fst rm1' = map fst rm1a"
        by blast
      have "fringe_while g ch rm2 db = Some (Inr (rm2', db'))"
        using False a(1) b(1) by (subst fringe_while.simps) simp
      then show ?thesis using b(2,3) a(4) by (intro exI [of _ rm2']) simp
    qed
  qed
qed

lemma seed_loop_sim:
  assumes "map fst rm1 = map fst rm2" and "fst ` set dic \<subseteq> fst ` set rm1" and "0 \<le> g0"
    and "\<And>k. k \<in> A \<Longrightarrow> \<exists>v. 0 \<le> v \<and> map_of rm1 k = Some v \<and> map_of rm2 k = Some v"
  shows "map fst (fst (seed_loop dic peak rm1 g0)) = map fst rm1 \<and>
         map fst (fst (seed_loop dic peak rm2 g0)) = map fst rm2 \<and>
         (\<forall>k. k \<in> A \<or> (\<exists>d. (k, d) \<in> set dic \<and> peak \<le> d) \<longrightarrow>
            (\<exists>v. 0 \<le> v \<and> map_of (fst (seed_loop dic peak rm1 g0)) k = Some v \<and>
                 map_of (fst (seed_loop dic peak rm2 g0)) k = Some v)) \<and>
         (\<forall>k. \<not> (\<exists>d. (k, d) \<in> set dic \<and> peak \<le> d) \<longrightarrow>
            map_of (fst (seed_loop dic peak rm1 g0)) k = map_of rm1 k \<and>
            map_of (fst (seed_loop dic peak rm2 g0)) k = map_of rm2 k)"
  using assms
proof (induction dic arbitrary: rm1 rm2 g0 A)
  case Nil
  then show ?case by simp
next
  case (Cons x dic)
  obtain c d where x: "x = (c, d)" by (cases x)
  have ck: "c \<in> fst ` set rm1" and dk: "fst ` set dic \<subseteq> fst ` set rm1"
    using Cons.prems(2) by (auto simp: x)
  show ?case
  proof (cases "peak \<le> d")
    case False
    from Cons.IH [OF Cons.prems(1) dk Cons.prems(3), of A] Cons.prems(4)
    show ?thesis using False by (auto simp: x)
  next
    case True
    let ?r1 = "AList.update c g0 rm1" and ?r2 = "AList.update c g0 rm2"
    have ck2: "c \<in> fst ` set rm2" using ck keys_set [OF Cons.prems(1)] by simp
    have k1: "map fst ?r1 = map fst rm1" using ck by (simp add: keys_update_present)
    have k2: "map fst ?r2 = map fst rm2" using ck2 by (simp add: keys_update_present)
    have keys: "map fst ?r1 = map fst ?r2" using k1 k2 Cons.prems(1) by simp
    have dk': "fst ` set dic \<subseteq> fst ` set ?r1" using dk keys_set [OF k1] by simp
    have g1: "0 \<le> g0 + 1" using Cons.prems(3) by simp
    have agree: "\<exists>v. 0 \<le> v \<and> map_of ?r1 k = Some v \<and> map_of ?r2 k = Some v"
      if "k \<in> insert c A" for k
    proof (cases "k = c")
      case True
      then show ?thesis using Cons.prems(3) by (simp add: update_conv')
    next
      case False
      then show ?thesis using that Cons.prems(4) [of k] by (simp add: update_conv')
    qed
    note ih = Cons.IH [OF keys dk' g1, of "insert c A", OF agree]
    have eq: "seed_loop (x # dic) peak rm g0 = seed_loop dic peak (AList.update c g0 rm) (g0 + 1)"
      for rm using True by (simp add: x)
    show ?thesis
      unfolding eq
    proof (intro conjI allI impI)
      show "map fst (fst (seed_loop dic peak ?r1 (g0 + 1))) = map fst rm1"
        using ih k1 by simp
      show "map fst (fst (seed_loop dic peak ?r2 (g0 + 1))) = map fst rm2"
        using ih k2 by simp
    next
      fix k assume "k \<in> A \<or> (\<exists>d. (k, d) \<in> set (x # dic) \<and> peak \<le> d)"
      then have "k \<in> insert c A \<or> (\<exists>d. (k, d) \<in> set dic \<and> peak \<le> d)"
        by (auto simp: x)
      then show "\<exists>v. 0 \<le> v \<and> map_of (fst (seed_loop dic peak ?r1 (g0 + 1))) k = Some v \<and>
                 map_of (fst (seed_loop dic peak ?r2 (g0 + 1))) k = Some v"
        using ih by blast
    next
      fix k assume n: "\<not> (\<exists>d. (k, d) \<in> set (x # dic) \<and> peak \<le> d)"
      then have kc: "k \<noteq> c" and n': "\<not> (\<exists>d. (k, d) \<in> set dic \<and> peak \<le> d)"
        using True by (auto simp: x)
      from ih n' have "map_of (fst (seed_loop dic peak ?r1 (g0 + 1))) k = map_of ?r1 k"
        "map_of (fst (seed_loop dic peak ?r2 (g0 + 1))) k = map_of ?r2 k"
        by blast+
      then show "map_of (fst (seed_loop dic peak ?r1 (g0 + 1))) k = map_of rm1 k"
        "map_of (fst (seed_loop dic peak ?r2 (g0 + 1))) k = map_of rm2 k"
        using kc by (simp_all add: update_conv')
    qed
  qed
qed

lemma compact_loop_keys: "map fst (compact_loop ps rm) = map fst rm"
  by (induction ps arbitrary: rm) (auto simp: keys_relabel)

lemma compact_loop_keeps:
  "\<forall>(t, gid) \<in> set ps. gid \<noteq> x \<Longrightarrow> map_of rm k = Some x \<Longrightarrow>
   map_of (compact_loop ps rm) k = Some x"
proof (induction ps arbitrary: rm)
  case Nil
  then show ?case by simp
next
  case (Cons p ps)
  obtain t gid where p: "p = (t, gid)" by (cases p)
  have ne: "gid \<noteq> x" and rest: "\<forall>(t, gid) \<in> set ps. gid \<noteq> x"
    using Cons.prems(1) by (auto simp: p)
  have "map_of (if gid \<noteq> int t then relabel gid (int t) rm else rm) k = Some x"
    using Cons.prems(2) ne by (simp add: map_of_relabel)
  from Cons.IH [OF rest this] show ?case by (simp add: p)
qed

lemma sorted_tail_above:
  assumes "sorted xs" "distinct xs" "\<forall>v \<in> set xs. (- 1 :: int) \<le> v"
  shows "- 1 \<notin> set (tl xs)"
proof (cases xs)
  case Nil
  then show ?thesis by simp
next
  case (Cons y ys)
  show ?thesis
  proof
    assume "- 1 \<in> set (tl xs)"
    then have m: "- 1 \<in> set ys" using Cons by simp
    then have "y \<le> - 1" using assms(1) Cons by auto
    moreover have "- 1 \<le> y" using assms(3) Cons by simp
    ultimately have "y = - 1" by simp
    then show False using assms(2) Cons m by simp
  qed
qed

lemma compaction_keys: "map fst (fst (compaction rm)) = map fst rm"
  by (simp add: compaction_def Let_def compact_loop_keys)

lemma compaction_keeps_unset:
  assumes lo: "\<forall>v \<in> snd ` set rm. - 1 \<le> v" and k: "map_of rm k = Some (- 1)"
  shows "map_of (fst (compaction rm)) k = Some (- 1)"
proof -
  let ?temp = "sort (remdups (map snd rm))"
  have "- 1 \<notin> set (tl ?temp)"
    by (rule sorted_tail_above) (use lo in auto)
  moreover have "snd ` set (enumerate 0 (tl ?temp)) = set (tl ?temp)"
    by (metis map_snd_enumerate set_map)
  ultimately have "\<forall>(t, gid) \<in> set (enumerate 0 (tl ?temp)). gid \<noteq> - 1"
    by force
  from compact_loop_keeps [OF this k] show ?thesis
    by (simp add: compaction_def Let_def)
qed

lemma map_of_all_unset:
  "list_all (\<lambda>(ch, g). g = x) rm \<Longrightarrow> map_of rm k = Some v \<Longrightarrow> v = x"
  by (auto simp: list_all_iff dest!: map_of_SomeD)

lemma initial_bound: "map_of (map (\<lambda>i. (int i, - 1 :: real)) [0..<n]) k = Some b \<Longrightarrow> b = - 1"
  by (auto dest!: map_of_SomeD)

lemma seed_sim:
  assumes keys: "map fst rm0 = map fst rmF"
    and dk: "fst ` set dic \<subseteq> fst ` set rm0" and dd: "distinct (map fst dic)"
    and unset: "list_all (\<lambda>(ch, g). g = - 1) rm0"
    and db0: "\<And>k b. map_of db0 k = Some b \<Longrightarrow> b = - 1"
  shows "sim {k. map_of rmF k = Some (- 1)} (fresh dic peak db0)
           (fst (seed_loop dic peak rm0 0)) (fst (seed_loop dic peak rmF 0)) \<and>
         map fst (fst (seed_loop dic peak rm0 0)) = map fst rm0"
proof -
  let ?r1 = "fst (seed_loop dic peak rm0 0)" and ?r2 = "fst (seed_loop dic peak rmF 0)"
  have pk: "is_peak dic peak k \<longleftrightarrow> (\<exists>d. (k, d) \<in> set dic \<and> peak \<le> d)" for k
    using dd by (auto simp: is_peak_def)
  have fr: "k \<in> fresh dic peak db0 \<longleftrightarrow> (\<exists>d. (k, d) \<in> set dic \<and> peak \<le> d)" for k
    using db0 [of k] by (auto simp: fresh_def pk)
  from seed_loop_sim [OF keys dk, where ?g0.0 = 0 and A = "{}" and peak = peak]
  have k1: "map fst ?r1 = map fst rm0" and k2: "map fst ?r2 = map fst rmF"
    and seeded: "\<And>k. \<exists>d. (k, d) \<in> set dic \<and> peak \<le> d \<Longrightarrow>
        \<exists>v. 0 \<le> v \<and> map_of ?r1 k = Some v \<and> map_of ?r2 k = Some v"
    and other: "\<And>k. \<not> (\<exists>d. (k, d) \<in> set dic \<and> peak \<le> d) \<Longrightarrow>
        map_of ?r1 k = map_of rm0 k \<and> map_of ?r2 k = map_of rmF k"
    by auto
  have "sim {k. map_of rmF k = Some (- 1)} (fresh dic peak db0) ?r1 ?r2"
  proof (rule simI)
    show "map fst ?r1 = map fst ?r2" using k1 k2 keys by simp
  next
    fix k v assume "k \<in> fresh dic peak db0" "map_of ?r1 k = Some v"
    then show "0 \<le> v \<and> map_of ?r2 k = Some v"
      using seeded [of k] by (auto simp: fr)
  next
    fix k v assume "k \<notin> fresh dic peak db0" "map_of ?r1 k = Some v"
    then have "map_of rm0 k = Some v" using other [of k] by (simp add: fr)
    then show "v = - 1" using map_of_all_unset [OF unset] by simp
  next
    fix k assume "k \<in> {k. map_of rmF k = Some (- 1)}" "k \<notin> fresh dic peak db0"
    then show "map_of ?r2 k = Some (- 1)" using other [of k] by (simp add: fr)
  qed
  then show ?thesis using k1 by simp
qed

lemma sim_values:
  assumes s: "sim N F rm1 rm2" and d: "distinct (map fst rm1)"
  shows "\<forall>v \<in> snd ` set rm1. - 1 \<le> v"
proof
  fix v assume "v \<in> snd ` set rm1"
  then obtain k where kv: "(k, v) \<in> set rm1" by force
  then have m: "map_of rm1 k = Some v" using d by simp
  show "- 1 \<le> v"
    using sim_fresh [OF s _ m] sim_stale [OF s _ m] by (cases "k \<in> F") auto
qed

text \<open>
  Claim C9. On chain data as \<open>_connect_chains\<close> builds it: if \<open>_build_groups\<close> returns,
  then running it again on the object it left (the same chains and links, the reverse
  map now the compacted result) returns the same object, so the same chain-to-group
  map, and the same group count.
\<close>

theorem C9_build_groups_idempotent:
  assumes ok: "chain_data_ok s"
    and run: "build_groups s chain_count = Some (Inr (s1, group_count))"
  shows "build_groups s1 chain_count = Some (Inr (s1, group_count))"
proof -
  let ?dic = "densest_in_chain s" and ?peak = "peakthresh s" and ?saddle = "saddlethresh s"
  let ?links = "chain_densest_n s" and ?rm0 = "reverse_map s"
  let ?db0 = "map (\<lambda>i. (int i, - 1 :: real)) [0..<nat chain_count]"
  let ?r1 = "fst (seed_loop ?dic ?peak ?rm0 0)"
  from run obtain st where ol: "outer_links ?dic ?peak ?saddle ?links (?r1, ?db0, []) = Inr st"
    by (cases "outer_links ?dic ?peak ?saddle ?links (?r1, ?db0, [])")
      (simp_all add: build_groups_def Let_def)
  obtain rm2 db2 g where st: "st = (rm2, db2, g)" by (cases st)
  from run ol st obtain y where fw0: "fringe_while g 1 rm2 db2 = Some y"
    by (cases "fringe_while g 1 rm2 db2") (simp_all add: build_groups_def Let_def)
  from run ol st fw0 obtain fin where fin: "y = Inr fin"
    by (cases y) (simp_all add: build_groups_def Let_def)
  obtain rm3 db3 where fin': "fin = (rm3, db3)" by (cases fin)
  have fw: "fringe_while g 1 rm2 db2 = Some (Inr (rm3, db3))"
    using fw0 fin fin' by simp
  let ?rmF = "fst (compaction rm3)"
  have s1: "s1 = s\<lparr>reverse_map := ?rmF\<rparr>" and gc: "group_count = snd (compaction rm3)"
    using run ol st fw by (simp_all add: build_groups_def Let_def)
  let ?N = "{k. map_of ?rmF k = Some (- 1)}"
  let ?r1' = "fst (seed_loop ?dic ?peak ?rmF 0)"
  have d0: "distinct (map fst ?rm0)" and unset: "list_all (\<lambda>(ch, g). g = - 1) ?rm0"
    and dd: "distinct (map fst ?dic)"
    and dk0: "list_all (\<lambda>(ch, d). ch \<in> fst ` set ?rm0) ?dic"
    and lk0: "links_ok ?dic (fst ` set ?rm0) ?links"
    using ok by (simp_all add: chain_data_ok_def)
  have dk: "fst ` set ?dic \<subseteq> fst ` set ?rm0"
    using dk0 by (auto simp: list_all_iff)
  have kr1: "map fst ?r1 = map fst ?rm0"
    using seed_loop_sim [OF refl dk, where ?g0.0 = 0 and A = "{}" and peak = ?peak] by simp
  have db_ok0: "db_ok ?db0"
    unfolding db_ok_def using initial_bound by fastforce
  have gk0: "gkeys [] ?r1" by (simp add: gkeys_def)
  have lk1: "links_ok ?dic (fst ` set ?r1) ?links"
    using lk0 keys_set [OF kr1] by simp
  have run1_keys: "map fst rm2 = map fst ?r1"
  proof -
    have "sim {} (fresh ?dic ?peak ?db0) ?r1 ?r1"
      using seed_sim [OF refl dk dd unset initial_bound [of "nat chain_count"], where peak = ?peak]
      by (simp add: sim_def)
    from outer_links_sim [OF ol [unfolded st] this db_ok0 gk0 lk1]
    show ?thesis by blast
  qed
  have fringe_keys: "map fst rm3 = map fst rm2"
  proof -
    have a: "sim {} (fresh ?dic ?peak ?db0) ?r1 ?r1"
      using seed_sim [OF refl dk dd unset initial_bound [of "nat chain_count"], where peak = ?peak]
      by (simp add: sim_def)
    from outer_links_sim [OF ol [unfolded st] a db_ok0 gk0 lk1]
    have b: "sim {} (fresh ?dic ?peak db2) rm2 rm2" "db_ok db2" "gkeys g rm2"
      by (auto simp: sim_def)
    from fringe_while_sim [OF fw, where N = "{}" and dic = ?dic and peak = ?peak] b
    show ?thesis by blast
  qed
  have keysF: "map fst ?rm0 = map fst ?rmF"
    using kr1 run1_keys fringe_keys by (simp add: compaction_keys)
  from seed_sim [OF keysF dk dd unset initial_bound [of "nat chain_count"], where peak = ?peak]
  have sim1: "sim ?N (fresh ?dic ?peak ?db0) ?r1 ?r1'" by simp
  from outer_links_sim [OF ol [unfolded st] sim1 db_ok0 gk0 lk1]
  obtain rm2' where ol': "outer_links ?dic ?peak ?saddle ?links (?r1', ?db0, []) = Inr (rm2', db2, g)"
    and sim2: "sim ?N (fresh ?dic ?peak db2) rm2 rm2'" and ok2: "db_ok db2" and gk2: "gkeys g rm2"
    by blast
  from fringe_while_sim [OF fw, where N = ?N and dic = ?dic and peak = ?peak] sim2 ok2 gk2
  obtain rm3' where fw': "fringe_while g 1 rm2' db2 = Some (Inr (rm3', db3))"
    and sim3: "sim ?N (fresh ?dic ?peak db3) rm3 rm3'"
    by blast
  have d3: "distinct (map fst rm3)"
    using d0 kr1 run1_keys fringe_keys by simp
  have "rm3 = rm3'"
  proof (rule alist_eqI [OF sim_keys [OF sim3] d3])
    fix k v assume m: "map_of rm3 k = Some v"
    show "map_of rm3' k = Some v"
    proof (cases "k \<in> fresh ?dic ?peak db3")
      case True
      from sim_fresh [OF sim3 True m] show ?thesis by simp
    next
      case False
      have v: "v = - 1" using sim_stale [OF sim3 False m] .
      have "map_of ?rmF k = Some (- 1)"
        using compaction_keeps_unset [OF sim_values [OF sim3 d3]] m v by simp
      then have "k \<in> ?N" by simp
      from sim_unset [OF sim3 this False] v show ?thesis by simp
    qed
  qed
  then have fw'': "fringe_while g 1 rm2' db2 = Some (Inr (rm3, db3))" using fw' by simp
  show ?thesis
    using ol' fw'' by (simp add: build_groups_def Let_def s1 gc)
qed

lemma example_groups_run: "build_groups example_groups 5 = Some (Inr (example_groups_built, 1))"
  by (simp add: build_groups_def example_groups_def example_groups_built_def init_fields_def
      link_step_def fringe_while.simps compaction_def upt_rec relabel_def enumerate_eq_zip)

lemma example_groups_ok: "chain_data_ok example_groups"
  by (simp add: chain_data_ok_def example_groups_def init_fields_def links_ok_def link_ok_def)

theorem C9_build_groups_idempotent_witness:
  "chain_data_ok example_groups \<and>
   build_groups example_groups 5 = Some (Inr (example_groups_built, 1)) \<and>
   build_groups example_groups_built 5 = Some (Inr (example_groups_built, 1))"
  using C9_build_groups_idempotent [OF example_groups_ok example_groups_run]
    example_groups_ok example_groups_run
  by simp

end
